theory Spec2Isabelle
  imports Main "HOL-Library.Multiset" "HOL-Library.Word"
begin

section \<open>JavaScript values\<close>

text \<open>
  The console interceptors receive arguments of type \<^verbatim>\<open>any\<close>. The values the
  logger can tell apart are modelled by \<open>jsval\<close>: primitives, instances of
  \<^verbatim>\<open>Error\<close> (name, message, optional stack), plain objects (their own properties,
  under \<^verbatim>\<open>Object.prototype\<close>) and arrays. Numbers are the integers from \<open>- 2 ^ 53\<close> to
  \<open>2 ^ 53 - 1\<close>, a signed word of 54 bits: each of them is a number of the language,
  and the language prints each of them in plain decimal. \<^verbatim>\<open>NaN\<close> has a constructor
  of its own; other numbers, functions and symbols are not values of the model.
\<close>

datatype jsval =
    JUndefined
  | JNull
  | JBool bool
  | JNum "54 word"
  | JNaN
  | JStr string
  | JError string string "string option"
  | JObject "(string \<times> jsval) list"
  | JArray "jsval list"

text \<open>\<^verbatim>\<open>x ? a : b\<close> tests the truthiness of \<open>x\<close>.\<close>

fun truthy :: "jsval \<Rightarrow> bool" where
  "truthy JUndefined = False"
| "truthy JNull = False"
| "truthy (JBool b) = b"
| "truthy (JNum n) = (n \<noteq> 0)"
| "truthy JNaN = False"
| "truthy (JStr s) = (s \<noteq> [])"
| "truthy (JError n m st) = True"
| "truthy (JObject kvs) = True"
| "truthy (JArray xs) = True"

definition digit_char :: "nat \<Rightarrow> char" where
  "digit_char d = ''0123456789'' ! (d mod 10)"

function show_nat :: "nat \<Rightarrow> string" where
  "show_nat n = (if n < 10 then [digit_char n] else show_nat (n div 10) @ [digit_char (n mod 10)])"
  by pat_completeness auto
termination
  by (relation "measure (\<lambda>n. n)") auto

definition show_int :: "int \<Rightarrow> string" where
  "show_int i = (if i < 0 then CHR ''-'' # show_nat (nat (- i)) else show_nat (nat i))"

fun join_comma :: "string list \<Rightarrow> string" where
  "join_comma [] = []"
| "join_comma [s] = s"
| "join_comma (s # t # ss) = s @ CHR '','' # join_comma (t # ss)"

text \<open>
  \<^verbatim>\<open>String(x)\<close>, with \<open>None\<close> where it throws a \<^verbatim>\<open>TypeError\<close>.
  \<^verbatim>\<open>Error.prototype.toString\<close> gives \<^verbatim>\<open>name + ": " + message\<close>. An object is
  converted by its \<^verbatim>\<open>toString\<close>: the inherited one gives \<^verbatim>\<open>[object Object]\<close>; an own
  property \<^verbatim>\<open>toString\<close> hides it and, no value of the model being callable, leaves
  only \<^verbatim>\<open>valueOf\<close>, which returns no primitive, so the conversion throws. An array
  joins its elements with commas (\<^verbatim>\<open>null\<close> and \<^verbatim>\<open>undefined\<close> elements as the empty
  string) and throws when an element does.
\<close>

fun js_String :: "jsval \<Rightarrow> string option" where
  "js_String JUndefined = Some ''undefined''"
| "js_String JNull = Some ''null''"
| "js_String (JBool b) = Some (if b then ''true'' else ''false'')"
| "js_String (JNum n) = Some (show_int (sint n))"
| "js_String JNaN = Some ''NaN''"
| "js_String (JStr s) = Some s"
| "js_String (JError n m st) =
     Some (if n = [] then m else if m = [] then n else n @ '': '' @ m)"
| "js_String (JObject kvs) =
     (if ''toString'' \<in> set (map fst kvs) then None else Some ''[object Object]'')"
| "js_String (JArray xs) =
     map_option join_comma
       (those (map (\<lambda>x. if x = JUndefined \<or> x = JNull then Some [] else js_String x) xs))"

definition type_error :: jsval where
  "type_error = JError ''TypeError'' ''Cannot convert object to primitive value'' None"

section \<open>Data model (types.ts)\<close>

datatype LogLevel = INFO | WARN | ERROR

text \<open>
  \<^verbatim>\<open>interface LogEntry\<close>, in two steps: \<open>LogDraft\<close> is \<^verbatim>\<open>Omit<LogEntry, 'id'>\<close>, the
  type of what \<^verbatim>\<open>addLogEntry\<close> takes, and \<open>LogEntry\<close> adds the optional \<^verbatim>\<open>id\<close>. Both
  callers of \<^verbatim>\<open>addLogEntry\<close>, \<^verbatim>\<open>saveLog\<close> and \<^verbatim>\<open>persistLog\<close>, pass an object literal
  of the five fields, so the value handed to the store never carries an \<^verbatim>\<open>id\<close> of
  the caller's. The optional fields are options. \<open>timestamp\<close> is a whole number of
  milliseconds, as \<^verbatim>\<open>Date.now()\<close> returns.
\<close>

record LogDraft =
  timestamp :: int
  level :: LogLevel
  message :: string
  stackTrace :: "string option"
  metadata :: "jsval option"

record LogEntry = LogDraft +
  id_key :: "nat option"

section \<open>The storage engine\<close>

text \<open>
  IndexedDB is the platform, not code of the repository; what the code relies on is
  modelled after its specification. The database holds the object store \<^verbatim>\<open>logs\<close>
  created with \<^verbatim>\<open>{keyPath: 'id', autoIncrement: true}\<close>: a list of records in
  primary-key order and a key generator that starts at 1, is advanced by every
  \<^verbatim>\<open>add\<close> of a value without a key and is left alone by \<^verbatim>\<open>clear\<close>. The value stored
  is the value given with the generated key written at the key path.
\<close>

record object_store =
  records :: "LogEntry list"
  keygen :: nat

definition createObjectStore :: object_store where
  "createObjectStore = \<lparr>records = [], keygen = 1\<rparr>"

definition with_id :: "nat \<Rightarrow> LogDraft \<Rightarrow> LogEntry" where
  "with_id k entry =
     \<lparr>timestamp = timestamp entry, level = level entry, message = message entry,
      stackTrace = stackTrace entry, metadata = metadata entry, id_key = Some k\<rparr>"

definition store_add :: "LogDraft \<Rightarrow> object_store \<Rightarrow> object_store" where
  "store_add entry st =
     st\<lparr>records := records st @ [with_id (keygen st) entry],
        keygen := Suc (keygen st)\<rparr>"

definition store_clear :: "object_store \<Rightarrow> object_store" where
  "store_clear st = st\<lparr>records := []\<rparr>"

text \<open>
  The index \<^verbatim>\<open>timestamp\<close> keeps the records ordered by index key and, among equal
  keys, by primary key. A cursor opened with direction \<^verbatim>\<open>'prev'\<close> walks it from
  the end.
\<close>

definition primary_key :: "LogEntry \<Rightarrow> nat" where
  "primary_key e = (case id_key e of None \<Rightarrow> 0 | Some k \<Rightarrow> k)"

definition index_le :: "LogEntry \<Rightarrow> LogEntry \<Rightarrow> bool" where
  "index_le a b =
     (timestamp a < timestamp b \<or> (timestamp a = timestamp b \<and> primary_key a \<le> primary_key b))"

fun index_insert :: "LogEntry \<Rightarrow> LogEntry list \<Rightarrow> LogEntry list" where
  "index_insert e [] = [e]"
| "index_insert e (x # xs) = (if index_le e x then e # x # xs else x # index_insert e xs)"

fun timestamp_index :: "LogEntry list \<Rightarrow> LogEntry list" where
  "timestamp_index [] = []"
| "timestamp_index (e # es) = index_insert e (timestamp_index es)"

text \<open>
  The cursor loop of \<^verbatim>\<open>getAllLogs\<close>: every \<^verbatim>\<open>onsuccess\<close> with a cursor pushes
  its value and continues; the one without resolves with the results.
\<close>

fun cursor_loop :: "LogEntry list \<Rightarrow> LogEntry list \<Rightarrow> LogEntry list" where
  "cursor_loop [] results = results"
| "cursor_loop (v # rest) results = cursor_loop rest (results @ [v])"

text \<open>
  Whether a request succeeds is the engine's decision. The world carries the
  decisions still to come, one per request, oldest first; a request made when the
  list is empty succeeds. A failing request carries the error (or error event) it
  fails with. With \<open>Aborts\<close> the request succeeds, so that its \<^verbatim>\<open>onsuccess\<close> handler
  runs, and the transaction then fails to commit: what it wrote is undone, the
  key generator included, before the next transaction starts, and no error event
  is fired. (An open request that aborts fires its error event.)
\<close>

datatype outcome = Succeeds | Fails jsval | Aborts

section \<open>The world: module state, console, observers\<close>

text \<open>
  A promise returned by \<^verbatim>\<open>initDB\<close> is either a fresh \<^verbatim>\<open>Promise.resolve()\<close> or the
  promise built by the \<open>k\<close>-th run of the executor at line 28, which wraps the \<open>k\<close>-th
  \<^verbatim>\<open>indexedDB.open\<close> request of this process.
\<close>

datatype pstate = Pending | Fulfilled | Rejected jsval

datatype promise = Resolved_now | Init_promise nat

datatype chan = Log | Warn | Error | Info

text \<open>
  A function stored in a console property: a native one, or one of the three
  closures built by \<^verbatim>\<open>initGlobalLogger\<close>, each holding the function it found in
  its property when it was installed.
\<close>

datatype fn = Native chan | Log_wrapper fn | Warn_wrapper fn | Error_wrapper fn

text \<open>Who called an observer: \<^verbatim>\<open>notifyListeners\<close> or the first delivery of \<^verbatim>\<open>subscribe\<close>.\<close>

datatype delivery = Notified | Initial

text \<open>\<^verbatim>\<open>logError\<close> takes \<^verbatim>\<open>Error | string\<close>.\<close>

datatype error_or_string = An_Error string string "string option" | A_String string

text \<open>
  Asynchronous work that has been started and not yet run. The execution model is
  single-threaded: a call from the application runs to its end, and what an
  \<^verbatim>\<open>async\<close> function does once it has been given its arguments is a task, run later,
  first come first served. A task is run in one piece: every \<^verbatim>\<open>await\<close> in it is
  followed through at once, the engine settling the request awaited (so the call of
  \<^verbatim>\<open>initDB\<close> that \<^verbatim>\<open>getDB\<close> may make is made when the task runs). A function called
  without \<^verbatim>\<open>await\<close> (\<^verbatim>\<open>notifyListeners()\<close> in \<^verbatim>\<open>saveLog\<close>) is a task of its own.
  Observers are passive: they take the list they are called with and return.
\<close>

datatype task =
    SaveLog LogDraft
  | NotifyListeners
  | InitialScan nat
  | ClearTask
  | PersistLog LogDraft

record world =
  dbInstance :: "nat option"
  initPromise :: "nat option"
  inits :: "pstate list"
  disk :: "object_store option"
  plan :: "outcome list"
  now :: int
  listeners :: "nat list"
  console_log :: fn
  console_warn :: fn
  console_error :: fn
  originalLog :: "fn option"
  originalError :: "fn option"
  tasks :: "task list"
  delivered :: "(nat \<times> delivery \<times> LogEntry list) list"
  out :: "(chan \<times> jsval list) list"
  issued :: "(nat \<times> bool) list"
  logs :: "LogEntry list"

text \<open>
  \<open>dbInstance\<close> and \<open>initPromise\<close> are the module variables of the store module;
  \<open>inits\<close> lists the open requests this process has made, each with the state of
  the promise wrapping it, so its length counts the opens. \<open>disk\<close> is the
  database as persisted (\<open>None\<close> before its creation). \<open>listeners\<close> is the \<^verbatim>\<open>Set\<close>
  of the logger module in insertion order. \<open>delivered\<close>, \<open>out\<close> and \<open>issued\<close> record
  what happened: the calls of observers, the output of the native console
  functions, and the ids \<^verbatim>\<open>addLogEntry\<close> resolved with, each with whether its
  transaction went on to commit. \<open>logs\<close> is the state of \<^verbatim>\<open>LoggerProvider\<close>.
\<close>

definition boot :: world where
  "boot = \<lparr>dbInstance = None, initPromise = None, inits = [], disk = None, plan = [],
     now = 0, listeners = [], console_log = Native Log, console_warn = Native Warn,
     console_error = Native Error, originalLog = None, originalError = None, tasks = [],
     delivered = [], out = [], issued = [], logs = []\<rparr>"

definition persisted :: "world \<Rightarrow> LogEntry list" where
  "persisted w = (case disk w of None \<Rightarrow> [] | Some st \<Rightarrow> records st)"

definition next_outcome :: "world \<Rightarrow> outcome \<times> world" where
  "next_outcome w = (case plan w of [] \<Rightarrow> (Succeeds, w) | x # xs \<Rightarrow> (x, w\<lparr>plan := xs\<rparr>))"

section \<open>The logger's capture path (logger module)\<close>

text \<open>
  \<^verbatim>\<open>saveLog\<close>, when it is called: the entry is built, with \<^verbatim>\<open>Date.now()\<close>, a whole
  number of milliseconds; persisting it is left as a task.
\<close>

definition saveLog :: "LogLevel \<Rightarrow> string \<Rightarrow> string option \<Rightarrow> jsval option \<Rightarrow> world \<Rightarrow> world" where
  "saveLog lvl msg stack meta w =
     w\<lparr>tasks := tasks w @
        [SaveLog \<lparr>timestamp = now w, level = lvl, message = msg, stackTrace = stack,
           metadata = meta\<rparr>]\<rparr>"

text \<open>\<^verbatim>\<open>args[0]\<close> and \<^verbatim>\<open>args.length > 1 ? args.slice(1) : undefined\<close>.\<close>

definition first_arg :: "jsval list \<Rightarrow> jsval" where
  "first_arg args = (case args of [] \<Rightarrow> JUndefined | a # _ \<Rightarrow> a)"

definition rest_args :: "jsval list \<Rightarrow> jsval option" where
  "rest_args args = (if length args > 1 then Some (JArray (drop 1 args)) else None)"

text \<open>
  Calling a console function: it returns (\<open>Inr\<close>) or throws (\<open>Inl\<close>). A native one
  prints. A wrapper forwards to the function it replaced, converts the first
  argument and calls \<^verbatim>\<open>saveLog\<close>; an exception of the forwarded call or of
  \<^verbatim>\<open>String\<close> leaves the wrapper before \<^verbatim>\<open>saveLog\<close> is reached.
\<close>

fun invoke :: "fn \<Rightarrow> jsval list \<Rightarrow> world \<Rightarrow> (jsval + unit) \<times> world" where
  "invoke (Native c) args w = (Inr (), w\<lparr>out := out w @ [(c, args)]\<rparr>)"
| "invoke (Log_wrapper orig) args w =
     (case invoke orig args w of
        (Inl e, w1) \<Rightarrow> (Inl e, w1)
      | (Inr u, w1) \<Rightarrow>
          (case (if truthy (first_arg args) then js_String (first_arg args) else Some []) of
             None \<Rightarrow> (Inl type_error, w1)
           | Some msg \<Rightarrow> (Inr (), saveLog INFO msg None (rest_args args) w1)))"
| "invoke (Warn_wrapper orig) args w =
     (case invoke orig args w of
        (Inl e, w1) \<Rightarrow> (Inl e, w1)
      | (Inr u, w1) \<Rightarrow>
          (case (if truthy (first_arg args) then js_String (first_arg args) else Some []) of
             None \<Rightarrow> (Inl type_error, w1)
           | Some msg \<Rightarrow> (Inr (), saveLog WARN msg None (rest_args args) w1)))"
| "invoke (Error_wrapper orig) args w =
     (case invoke orig args w of
        (Inl e, w1) \<Rightarrow> (Inl e, w1)
      | (Inr u, w1) \<Rightarrow>
          (case first_arg args of
             JError n m st \<Rightarrow> (Inr (), saveLog ERROR m st (rest_args args) w1)
           | firstArg \<Rightarrow>
               (case js_String firstArg of
                  None \<Rightarrow> (Inl type_error, w1)
                | Some msg \<Rightarrow> (Inr (), saveLog ERROR msg None (rest_args args) w1))))"

definition initGlobalLogger :: "world \<Rightarrow> world" where
  "initGlobalLogger w =
     (let originalConsole_log = console_log w;
          originalConsole_warn = console_warn w;
          originalConsole_error = console_error w;
          w1 = w\<lparr>originalLog := Some originalConsole_log,
                 originalError := Some originalConsole_error,
                 console_log := Log_wrapper originalConsole_log,
                 console_warn := Warn_wrapper originalConsole_warn,
                 console_error := Error_wrapper originalConsole_error\<rparr>
      in snd (invoke (Native Info) [JStr ''Logger initialized: Console methods intercepted.''] w1))"

section \<open>The store module\<close>

definition initDB :: "world \<Rightarrow> promise \<times> world" where
  "initDB w =
     (if dbInstance w \<noteq> None then (Resolved_now, w)
      else case initPromise w of
        Some p \<Rightarrow> (Init_promise p, w)
      | None \<Rightarrow>
          (let k = length (inits w)
           in (Init_promise k, w\<lparr>inits := inits w @ [Pending], initPromise := Some k\<rparr>)))"

text \<open>
  The handlers of the open request \<open>k\<close>. \<^verbatim>\<open>onupgradeneeded\<close> creates the store if the
  database does not hold it. \<^verbatim>\<open>onerror\<close> calls \<^verbatim>\<open>console.error\<close>, whatever function
  that property holds by then, and rejects, unless that call throws.
\<close>

definition onupgradeneeded :: "world \<Rightarrow> world" where
  "onupgradeneeded w = (if disk w = None then w\<lparr>disk := Some createObjectStore\<rparr> else w)"

definition onsuccess :: "nat \<Rightarrow> world \<Rightarrow> world" where
  "onsuccess k w = w\<lparr>dbInstance := Some k, inits := (inits w)[k := Fulfilled]\<rparr>"

definition onerror :: "nat \<Rightarrow> jsval \<Rightarrow> world \<Rightarrow> world" where
  "onerror k ev w =
     (case invoke (console_error w) [JStr ''IndexedDB error:'', ev] w of
        (Inl e, w1) \<Rightarrow> w1
      | (Inr u, w1) \<Rightarrow>
          w1\<lparr>inits := (inits w1)[k := Rejected (JStr ''Failed to open database'')]\<rparr>)"

definition abort_error :: jsval where
  "abort_error = JError ''AbortError'' ''The transaction was aborted'' None"

text \<open>
  The engine settles the open request \<open>k\<close>, if it is still pending: on success it
  fires \<^verbatim>\<open>upgradeneeded\<close> when the database is older than version 1 (it does not
  exist), then \<^verbatim>\<open>success\<close>.
\<close>

definition open_completes :: "nat \<Rightarrow> world \<Rightarrow> world" where
  "open_completes k w =
     (if k < length (inits w) \<and> inits w ! k = Pending then
        (case next_outcome w of
           (Succeeds, w1) \<Rightarrow> onsuccess k (if disk w1 = None then onupgradeneeded w1 else w1)
         | (Fails ev, w1) \<Rightarrow> onerror k ev w1
         | (Aborts, w1) \<Rightarrow> onerror k abort_error w1)
      else w)"

text \<open>
  \<^verbatim>\<open>await p\<close> for a promise of \<^verbatim>\<open>initDB\<close>: the caller is suspended until the
  engine has settled the request, then resumes or throws the rejection. (\<^verbatim>\<open>initDB\<close>
  only returns promises that exist; for any other index nothing is awaited.)
\<close>

definition await_init :: "promise \<Rightarrow> world \<Rightarrow> (jsval + unit) \<times> world" where
  "await_init p w =
     (case p of
        Resolved_now \<Rightarrow> (Inr (), w)
      | Init_promise k \<Rightarrow>
          (let w1 = open_completes k w
           in if k < length (inits w1)
              then (case inits w1 ! k of Rejected e \<Rightarrow> (Inl e, w1) | _ \<Rightarrow> (Inr (), w1))
              else (Inr (), w1)))"

definition not_initialized :: jsval where
  "not_initialized = JError ''Error'' ''Database not initialized'' None"

definition getDB :: "world \<Rightarrow> (jsval + nat) \<times> world" where
  "getDB w =
     (case (if dbInstance w = None then (case initDB w of (p, w0) \<Rightarrow> await_init p w0)
            else (Inr (), w)) of
        (Inl e, w1) \<Rightarrow> (Inl e, w1)
      | (Inr u, w1) \<Rightarrow>
          (case dbInstance w1 of
             None \<Rightarrow> (Inl not_initialized, w1)
           | Some db \<Rightarrow> (Inr db, w1)))"

text \<open>
  The handler installed on the connection in \<^verbatim>\<open>onsuccess\<close>: the error event of a
  failed request bubbles from the request through its transaction to the
  connection.
\<close>

definition db_onerror :: "jsval \<Rightarrow> world \<Rightarrow> world" where
  "db_onerror e w = snd (invoke (console_error w) [JStr ''Database error:'', e] w)"

text \<open>\<^verbatim>\<open>db.transaction([STORE_NAME], ...)\<close> throws when the database has no such store.\<close>

definition not_found :: jsval where
  "not_found = JError ''NotFoundError'' ''object store not found'' None"

text \<open>
  The three operations resolve in the \<^verbatim>\<open>onsuccess\<close> handler of their request and
  reject in its \<^verbatim>\<open>onerror\<close> handler; none of them listens to its transaction.
\<close>

definition addLogEntry :: "LogDraft \<Rightarrow> world \<Rightarrow> (jsval + nat) \<times> world" where
  "addLogEntry entry w =
     (case getDB w of
        (Inl e, w1) \<Rightarrow> (Inl e, w1)
      | (Inr db, w1) \<Rightarrow>
          (case disk w1 of
             None \<Rightarrow> (Inl not_found, w1)
           | Some st \<Rightarrow>
               (case next_outcome w1 of
                  (Fails e, w2) \<Rightarrow> (Inl e, db_onerror e w2)
                | (Succeeds, w2) \<Rightarrow>
                    (Inr (keygen st),
                     w2\<lparr>disk := Some (store_add entry st),
                        issued := issued w2 @ [(keygen st, True)]\<rparr>)
                | (Aborts, w2) \<Rightarrow>
                    (Inr (keygen st), w2\<lparr>issued := issued w2 @ [(keygen st, False)]\<rparr>))))"

definition getAllLogs :: "world \<Rightarrow> (jsval + LogEntry list) \<times> world" where
  "getAllLogs w =
     (case getDB w of
        (Inl e, w1) \<Rightarrow> (Inl e, w1)
      | (Inr db, w1) \<Rightarrow>
          (case disk w1 of
             None \<Rightarrow> (Inl not_found, w1)
           | Some st \<Rightarrow>
               (case next_outcome w1 of
                  (Fails e, w2) \<Rightarrow> (Inl e, db_onerror e w2)
                | (Succeeds, w2) \<Rightarrow>
                    (Inr (cursor_loop (rev (timestamp_index (records st))) []), w2)
                | (Aborts, w2) \<Rightarrow>
                    (Inr (cursor_loop (rev (timestamp_index (records st))) []), w2))))"

definition clearAllLogs :: "world \<Rightarrow> (jsval + unit) \<times> world" where
  "clearAllLogs w =
     (case getDB w of
        (Inl e, w1) \<Rightarrow> (Inl e, w1)
      | (Inr db, w1) \<Rightarrow>
          (case disk w1 of
             None \<Rightarrow> (Inl not_found, w1)
           | Some st \<Rightarrow>
               (case next_outcome w1 of
                  (Fails e, w2) \<Rightarrow> (Inl e, db_onerror e w2)
                | (Succeeds, w2) \<Rightarrow> (Inr (), w2\<lparr>disk := Some (store_clear st)\<rparr>)
                | (Aborts, w2) \<Rightarrow> (Inr (), w2))))"

section \<open>Persist and notify (logger module)\<close>

definition deliver :: "delivery \<Rightarrow> LogEntry list \<Rightarrow> nat \<Rightarrow> world \<Rightarrow> world" where
  "deliver d ls l w = w\<lparr>delivered := delivered w @ [(l, d, ls)]\<rparr>"

text \<open>
  \<^verbatim>\<open>notifyListeners\<close>: the observers registered when the scan has resolved are
  called in insertion order; a failed scan is reported with \<^verbatim>\<open>console.warn\<close>, the
  function that property holds at that moment.
\<close>

definition notifyListeners :: "world \<Rightarrow> world" where
  "notifyListeners w =
     (case getAllLogs w of
        (Inr ls, w1) \<Rightarrow> fold (deliver Notified ls) (listeners w1) w1
      | (Inl e, w1) \<Rightarrow>
          snd (invoke (console_warn w1) [JStr ''Failed to notify listeners'', e] w1))"

text \<open>
  The rest of \<^verbatim>\<open>saveLog\<close>, after \<^verbatim>\<open>await addLogEntry(...)\<close>: \<^verbatim>\<open>notifyListeners()\<close> is
  started and not awaited; a failure goes to \<^verbatim>\<open>console._originalError\<close> when that
  property is set.
\<close>

definition saveLog_resume :: "LogDraft \<Rightarrow> world \<Rightarrow> world" where
  "saveLog_resume entry w =
     (case addLogEntry entry w of
        (Inr k, w1) \<Rightarrow> w1\<lparr>tasks := tasks w1 @ [NotifyListeners]\<rparr>
      | (Inl error, w1) \<Rightarrow>
          (case originalError w1 of
             Some f \<Rightarrow> snd (invoke f [JStr ''Failed to save log to DB'', error] w1)
           | None \<Rightarrow> w1))"

text \<open>The public \<^verbatim>\<open>Logger\<close> object. The handle of \<^verbatim>\<open>subscribe\<close> deletes its observer.\<close>

datatype handle = Delete_listener nat

definition Logger_clear :: "world \<Rightarrow> world" where
  "Logger_clear w = w\<lparr>tasks := tasks w @ [ClearTask]\<rparr>"

definition Logger_clear_resume :: "world \<Rightarrow> world" where
  "Logger_clear_resume w =
     (case clearAllLogs w of
        (Inr u, w1) \<Rightarrow> w1\<lparr>tasks := tasks w1 @ [NotifyListeners]\<rparr>
      | (Inl e, w1) \<Rightarrow> w1)"

definition Logger_subscribe :: "nat \<Rightarrow> world \<Rightarrow> handle \<times> world" where
  "Logger_subscribe listener w =
     (Delete_listener listener,
      w\<lparr>listeners := (if listener \<in> set (listeners w) then listeners w
                       else listeners w @ [listener]),
        tasks := tasks w @ [InitialScan listener]\<rparr>)"

text \<open>
  \<^verbatim>\<open>getAllLogs().then(listener)\<close>: the observer is called with the resolved value;
  the promise has no rejection handler.
\<close>

definition initial_scan :: "nat \<Rightarrow> world \<Rightarrow> world" where
  "initial_scan listener w =
     (case getAllLogs w of
        (Inr ls, w1) \<Rightarrow> deliver Initial ls listener w1
      | (Inl e, w1) \<Rightarrow> w1)"

fun unsubscribe :: "handle \<Rightarrow> world \<Rightarrow> bool \<times> world" where
  "unsubscribe (Delete_listener listener) w =
     (listener \<in> set (listeners w), w\<lparr>listeners := removeAll listener (listeners w)\<rparr>)"

definition Logger_internalError :: "string \<Rightarrow> string option \<Rightarrow> jsval option \<Rightarrow> world \<Rightarrow> world" where
  "Logger_internalError msg stack meta w = saveLog ERROR msg stack meta w"

section \<open>The manual API (LoggerProvider)\<close>

text \<open>
  \<^verbatim>\<open>persistLog\<close> builds the entry when it is called; the insert and the awaited
  \<^verbatim>\<open>refreshLogs\<close> are its task. Failures go to \<^verbatim>\<open>console.error\<close>, whatever function
  that property holds. Of the provider's state only \<open>logs\<close> is kept.
\<close>

definition persistLog :: "LogLevel \<Rightarrow> string \<Rightarrow> string option \<Rightarrow> jsval option \<Rightarrow> world \<Rightarrow> world" where
  "persistLog lvl msg stack meta w =
     w\<lparr>tasks := tasks w @
        [PersistLog \<lparr>timestamp = now w, level = lvl, message = msg, stackTrace = stack,
           metadata = meta\<rparr>]\<rparr>"

definition refreshLogs :: "world \<Rightarrow> world" where
  "refreshLogs w =
     (case getAllLogs w of
        (Inr fetchedLogs, w1) \<Rightarrow> w1\<lparr>logs := fetchedLogs\<rparr>
      | (Inl error, w1) \<Rightarrow>
          snd (invoke (console_error w1) [JStr ''Failed to fetch logs:'', error] w1))"

definition persistLog_resume :: "LogDraft \<Rightarrow> world \<Rightarrow> world" where
  "persistLog_resume entry w =
     (case addLogEntry entry w of
        (Inr k, w1) \<Rightarrow> refreshLogs w1
      | (Inl error, w1) \<Rightarrow>
          snd (invoke (console_error w1)
            [JStr ''CRITICAL: Failed to persist log to IndexedDB'', error] w1))"

definition logInfo :: "string \<Rightarrow> jsval option \<Rightarrow> world \<Rightarrow> world" where
  "logInfo msg meta w = persistLog INFO msg None meta w"

definition logWarn :: "string \<Rightarrow> jsval option \<Rightarrow> world \<Rightarrow> world" where
  "logWarn msg meta w = persistLog WARN msg None meta w"

definition logError :: "error_or_string \<Rightarrow> jsval option \<Rightarrow> world \<Rightarrow> world" where
  "logError error meta w =
     (case error of
        An_Error n m st \<Rightarrow> persistLog ERROR m st meta w
      | A_String s \<Rightarrow> persistLog ERROR s None meta w)"

section \<open>Runs\<close>

text \<open>
  What can happen to the process, one event at a time: a call from application
  code, an event of the engine, the clock moving, the next pending task being run,
  or the page being reloaded (which keeps the database and nothing else). What a
  console call throws goes to the application code that made the call.
\<close>

datatype cmd =
    Install
  | Console chan "jsval list"
  | InternalError string "string option" "jsval option"
  | Clear
  | Subscribe nat
  | Unsubscribe nat
  | InitDB
  | OpenCompletes nat
  | SetClock int
  | LogInfo string "jsval option"
  | LogWarn string "jsval option"
  | LogError error_or_string "jsval option"
  | Step
  | Reload

definition console_fn :: "chan \<Rightarrow> world \<Rightarrow> fn" where
  "console_fn c w =
     (case c of Log \<Rightarrow> console_log w | Warn \<Rightarrow> console_warn w
      | Error \<Rightarrow> console_error w | Info \<Rightarrow> Native Info)"

definition run_task :: "task \<Rightarrow> world \<Rightarrow> world" where
  "run_task t w =
     (case t of
        SaveLog entry \<Rightarrow> saveLog_resume entry w
      | NotifyListeners \<Rightarrow> notifyListeners w
      | InitialScan l \<Rightarrow> initial_scan l w
      | ClearTask \<Rightarrow> Logger_clear_resume w
      | PersistLog entry \<Rightarrow> persistLog_resume entry w)"

definition step :: "world \<Rightarrow> world" where
  "step w = (case tasks w of [] \<Rightarrow> w | t # ts \<Rightarrow> run_task t (w\<lparr>tasks := ts\<rparr>))"

definition reload :: "world \<Rightarrow> world" where
  "reload w =
     w\<lparr>dbInstance := None, initPromise := None, inits := [], listeners := [],
       console_log := Native Log, console_warn := Native Warn,
       console_error := Native Error, originalLog := None, originalError := None,
       tasks := [], logs := []\<rparr>"

definition exec :: "cmd \<Rightarrow> world \<Rightarrow> world" where
  "exec c w =
     (case c of
        Install \<Rightarrow> initGlobalLogger w
      | Console ch args \<Rightarrow> snd (invoke (console_fn ch w) args w)
      | InternalError msg stack meta \<Rightarrow> Logger_internalError msg stack meta w
      | Clear \<Rightarrow> Logger_clear w
      | Subscribe l \<Rightarrow> snd (Logger_subscribe l w)
      | Unsubscribe l \<Rightarrow> snd (unsubscribe (Delete_listener l) w)
      | InitDB \<Rightarrow> snd (initDB w)
      | OpenCompletes k \<Rightarrow> open_completes k w
      | SetClock t \<Rightarrow> w\<lparr>now := t\<rparr>
      | LogInfo msg meta \<Rightarrow> logInfo msg meta w
      | LogWarn msg meta \<Rightarrow> logWarn msg meta w
      | LogError e meta \<Rightarrow> logError e meta w
      | Step \<Rightarrow> step w
      | Reload \<Rightarrow> reload w)"

fun run :: "cmd list \<Rightarrow> world \<Rightarrow> world" where
  "run [] w = w"
| "run (c # cs) w = run cs (exec c w)"

text \<open>\<^verbatim>\<open>index.tsx\<close> installs the interceptors once, before anything is rendered.\<close>

definition index_tsx :: "world \<Rightarrow> world" where
  "index_tsx w = initGlobalLogger w"

text \<open>\<open>n\<close> calls of \<^verbatim>\<open>initDB\<close> in a row, none of them awaited: the promises they return.\<close>

fun initDB_times :: "nat \<Rightarrow> world \<Rightarrow> promise list \<times> world" where
  "initDB_times 0 w = ([], w)"
| "initDB_times (Suc n) w =
     (case initDB w of (p, w1) \<Rightarrow> (case initDB_times n w1 of (ps, w2) \<Rightarrow> (p # ps, w2)))"

section \<open>Notions used in the statements\<close>

text \<open>The key the generator will hand out next.\<close>

definition next_key :: "world \<Rightarrow> nat" where
  "next_key w = (case disk w of None \<Rightarrow> 1 | Some st \<Rightarrow> keygen st)"

text \<open>
  The store can be reached: there is a connection to an existing database, or no
  open has been asked for yet, or the one asked for is still pending.
\<close>

definition can_open :: "world \<Rightarrow> bool" where
  "can_open w =
     (case dbInstance w of
        Some c \<Rightarrow> disk w \<noteq> None
      | None \<Rightarrow>
          (case initPromise w of
             None \<Rightarrow> True
           | Some k \<Rightarrow> k < length (inits w) \<and> inits w ! k = Pending))"

text \<open>
  Nothing asynchronous is pending, the store can be reached and the engine fails
  no request.
\<close>

definition settled :: "world \<Rightarrow> bool" where
  "settled w = (tasks w = [] \<and> can_open w \<and> plan w = [])"

text \<open>The interceptors have been installed once, over the native functions.\<close>

definition installed_once :: "world \<Rightarrow> bool" where
  "installed_once w =
     (console_log w = Log_wrapper (Native Log) \<and>
      console_warn w = Warn_wrapper (Native Warn) \<and>
      console_error w = Error_wrapper (Native Error) \<and>
      originalError w = Some (Native Error))"

text \<open>The log sets \<^verbatim>\<open>notifyListeners\<close> has passed to an observer.\<close>

definition notified :: "nat \<Rightarrow> world \<Rightarrow> LogEntry list list" where
  "notified l w =
     map (\<lambda>x. snd (snd x)) (filter (\<lambda>x. fst x = l \<and> fst (snd x) = Notified) (delivered w))"

text \<open>
  The process has made at most one open request, the one behind \<open>initPromise\<close>, and
  a connection only comes from it.
\<close>

definition single_init :: "world \<Rightarrow> bool" where
  "single_init w =
     ((case initPromise w of
         None \<Rightarrow> inits w = []
       | Some k \<Rightarrow> k = 0 \<and> length (inits w) = 1) \<and>
      (dbInstance w = None \<or> initPromise w = Some 0))"

text \<open>The first open was rejected with \<open>e\<close> and there is no connection.\<close>

definition failed_init :: "jsval \<Rightarrow> world \<Rightarrow> bool" where
  "failed_init e w = (dbInstance w = None \<and> initPromise w = Some 0 \<and> inits w = [Rejected e])"

text \<open>
  The ids \<^verbatim>\<open>addLogEntry\<close> has resolved with, in the order it did, and those among
  them whose transaction committed.
\<close>

definition returned_ids :: "world \<Rightarrow> nat list" where
  "returned_ids w = map fst (issued w)"

definition committed_ids :: "world \<Rightarrow> nat list" where
  "committed_ids w = map fst (filter snd (issued w))"

text \<open>
  The ids resolved so far never decrease and those committed increase; no id
  resolved is above the key generator, and the committed ones and the keys of the
  stored records lie below it.
\<close>

definition ids_inv :: "world \<Rightarrow> bool" where
  "ids_inv w =
     (sorted_wrt (\<le>) (returned_ids w) \<and>
      sorted_wrt (<) (committed_ids w) \<and>
      list_all (\<lambda>i. i \<le> next_key w) (returned_ids w) \<and>
      list_all (\<lambda>i. i < next_key w) (committed_ids w) \<and>
      list_all (\<lambda>r. primary_key r < next_key w) (persisted w))"

text \<open>
  The ids given out are those of \<open>old\<close> followed by ids from \<open>k\<close> upwards, and the key
  generator has not fallen below \<open>k\<close>.
\<close>

definition extends :: "(nat \<times> bool) list \<Rightarrow> nat \<Rightarrow> world \<Rightarrow> bool" where
  "extends old k v =
     ((\<exists>new. issued v = old @ new \<and> list_all (\<lambda>x. k \<le> fst x) new) \<and> k \<le> next_key v)"

text \<open>
  Predicates kept by every elementary change of the world that opening the
  database makes (\<open>stable_open\<close>) and that running a task makes (\<open>stable\<close>).
\<close>

definition stable_open :: "(world \<Rightarrow> bool) \<Rightarrow> bool" where
  "stable_open P =
     ((\<forall>w x. P w \<longrightarrow> P (w\<lparr>out := x\<rparr>)) \<and>
      (\<forall>w x. P w \<longrightarrow> P (w\<lparr>tasks := x\<rparr>)) \<and>
      (\<forall>w x. P w \<longrightarrow> P (w\<lparr>plan := x\<rparr>)) \<and>
      (\<forall>w. P w \<longrightarrow> dbInstance w = None \<longrightarrow> initPromise w = None \<longrightarrow>
         P (w\<lparr>inits := inits w @ [Pending], initPromise := Some (length (inits w))\<rparr>)) \<and>
      (\<forall>w. P w \<longrightarrow> disk w = None \<longrightarrow> P (w\<lparr>disk := Some createObjectStore\<rparr>)) \<and>
      (\<forall>w k. P w \<longrightarrow> k < length (inits w) \<longrightarrow> inits w ! k = Pending \<longrightarrow> disk w \<noteq> None \<longrightarrow>
         P (w\<lparr>dbInstance := Some k, inits := (inits w)[k := Fulfilled]\<rparr>)) \<and>
      (\<forall>w k. P w \<longrightarrow> k < length (inits w) \<longrightarrow> inits w ! k = Pending \<longrightarrow>
         P (w\<lparr>inits := (inits w)[k := Rejected (JStr ''Failed to open database'')]\<rparr>)))"

definition stable :: "(world \<Rightarrow> bool) \<Rightarrow> bool" where
  "stable P =
     (stable_open P \<and>
      (\<forall>w x. P w \<longrightarrow> P (w\<lparr>logs := x\<rparr>)) \<and>
      (\<forall>w st e. P w \<longrightarrow> disk w = Some st \<longrightarrow>
         P (w\<lparr>disk := Some (store_add e st), issued := issued w @ [(keygen st, True)]\<rparr>)) \<and>
      (\<forall>w st. P w \<longrightarrow> disk w = Some st \<longrightarrow>
         P (w\<lparr>issued := issued w @ [(keygen st, False)]\<rparr>)) \<and>
      (\<forall>w st. P w \<longrightarrow> disk w = Some st \<longrightarrow> P (w\<lparr>disk := Some (store_clear st)\<rparr>)) \<and>
      (\<forall>w l ls. P w \<longrightarrow> l \<in> set (listeners w) \<longrightarrow>
         P (w\<lparr>delivered := delivered w @ [(l, Notified, ls)]\<rparr>)) \<and>
      (\<forall>w l ls. P w \<longrightarrow> P (w\<lparr>delivered := delivered w @ [(l, Initial, ls)]\<rparr>)))"

text \<open>
  The commands that write the console, the observer set, the clock or the process
  itself directly; every other command only makes the elementary changes above.
\<close>

fun direct :: "cmd \<Rightarrow> bool" where
  "direct Install = True"
| "direct (Subscribe l) = True"
| "direct (Unsubscribe l) = True"
| "direct (SetClock t) = True"
| "direct Reload = True"
| "direct c = False"

section \<open>Example runs\<close>


text \<open>A process whose engine refuses the first request made to it.\<close>

definition broken :: world where
  "broken = boot\<lparr>plan := [Fails JNull]\<rparr>"

text \<open>
  The application after start-up with two observers, 1 and 2, and one captured
  \<^verbatim>\<open>console.log\<close> they have both been notified of.
\<close>

definition watched :: world where
  "watched = run [Install, Subscribe 1, Subscribe 2, Step, Step, Console Log [JStr ''x''], Step, Step]
     boot"

text \<open>
  A process whose engine opens the database and accepts the first insert, then
  fails the scan that follows.
\<close>

definition flaky :: world where
  "flaky = boot\<lparr>plan := [Succeeds, Succeeds, Fails JNull]\<rparr>"

text \<open>
  A process whose engine opens the database and lets the first insert succeed,
  then fails to commit its transaction.
\<close>

definition aborting :: world where
  "aborting = boot\<lparr>plan := [Succeeds, Aborts]\<rparr>"

section \<open>Stable predicates\<close>

lemma stable_out: "stable_open P \<Longrightarrow> P w \<Longrightarrow> P (w\<lparr>out := x\<rparr>)"
  and stable_tasks: "stable_open P \<Longrightarrow> P w \<Longrightarrow> P (w\<lparr>tasks := y\<rparr>)"
  and stable_plan: "stable_open P \<Longrightarrow> P w \<Longrightarrow> P (w\<lparr>plan := z\<rparr>)"
  by (simp_all add: stable_open_def)

lemma stable_initDB_new:
  "stable_open P \<Longrightarrow> P w \<Longrightarrow> dbInstance w = None \<Longrightarrow> initPromise w = None \<Longrightarrow>
     P (w\<lparr>inits := inits w @ [Pending], initPromise := Some (length (inits w))\<rparr>)"
  by (simp add: stable_open_def)

lemma stable_create:
  "stable_open P \<Longrightarrow> P w \<Longrightarrow> disk w = None \<Longrightarrow> P (w\<lparr>disk := Some createObjectStore\<rparr>)"
  by (simp add: stable_open_def)

lemma stable_onsuccess:
  "stable_open P \<Longrightarrow> P w \<Longrightarrow> k < length (inits w) \<Longrightarrow> inits w ! k = Pending \<Longrightarrow>
     disk w \<noteq> None \<Longrightarrow> P (w\<lparr>dbInstance := Some k, inits := (inits w)[k := Fulfilled]\<rparr>)"
  by (simp add: stable_open_def)

lemma stable_reject:
  "stable_open P \<Longrightarrow> P w \<Longrightarrow> k < length (inits w) \<Longrightarrow> inits w ! k = Pending \<Longrightarrow>
     P (w\<lparr>inits := (inits w)[k := Rejected (JStr ''Failed to open database'')]\<rparr>)"
  by (simp add: stable_open_def)

lemma stable_is_open: "stable P \<Longrightarrow> stable_open P"
  by (simp add: stable_def)

lemma stable_logs: "stable P \<Longrightarrow> P w \<Longrightarrow> P (w\<lparr>logs := u\<rparr>)"
  by (simp add: stable_def)

lemma stable_add:
  "stable P \<Longrightarrow> P w \<Longrightarrow> disk w = Some st \<Longrightarrow>
     P (w\<lparr>disk := Some (store_add e st), issued := issued w @ [(keygen st, True)]\<rparr>)"
  by (simp add: stable_def)

lemma stable_abort:
  "stable P \<Longrightarrow> P w \<Longrightarrow> disk w = Some st \<Longrightarrow>
     P (w\<lparr>issued := issued w @ [(keygen st, False)]\<rparr>)"
  by (simp add: stable_def)

lemma stable_clear:
  "stable P \<Longrightarrow> P w \<Longrightarrow> disk w = Some st \<Longrightarrow> P (w\<lparr>disk := Some (store_clear st)\<rparr>)"
  by (simp add: stable_def)

lemma stable_notified:
  "stable P \<Longrightarrow> P w \<Longrightarrow> l \<in> set (listeners w) \<Longrightarrow>
     P (w\<lparr>delivered := delivered w @ [(l, Notified, ls)]\<rparr>)"
  by (simp add: stable_def)

lemma stable_initial:
  "stable P \<Longrightarrow> P w \<Longrightarrow> P (w\<lparr>delivered := delivered w @ [(l, Initial, ls)]\<rparr>)"
  by (simp add: stable_def)

lemma stable_saveLog: "stable_open P \<Longrightarrow> P w \<Longrightarrow> P (saveLog l m s a w)"
  by (simp add: saveLog_def stable_tasks)

lemma stable_invoke: "stable_open P \<Longrightarrow> P w \<Longrightarrow> P (snd (invoke f a w))"
proof (induction f arbitrary: w)
  case (Native c)
  then show ?case by (simp add: stable_out)
next
  case (Log_wrapper f)
  obtain r w1 where i: "invoke f a w = (r, w1)" by (cases "invoke f a w")
  have "P w1" using Log_wrapper.IH[OF Log_wrapper.prems] i by simp
  then show ?case
    using i Log_wrapper.prems(1) by (auto simp: stable_saveLog split: sum.splits option.splits)
next
  case (Warn_wrapper f)
  obtain r w1 where i: "invoke f a w = (r, w1)" by (cases "invoke f a w")
  have "P w1" using Warn_wrapper.IH[OF Warn_wrapper.prems] i by simp
  then show ?case
    using i Warn_wrapper.prems(1) by (auto simp: stable_saveLog split: sum.splits option.splits)
next
  case (Error_wrapper f)
  obtain r w1 where i: "invoke f a w = (r, w1)" by (cases "invoke f a w")
  have "P w1" using Error_wrapper.IH[OF Error_wrapper.prems] i by simp
  then show ?case
    using i Error_wrapper.prems(1)
    by (auto simp: stable_saveLog split: sum.splits option.splits jsval.splits)
qed

text \<open>A console call only starts captures and prints.\<close>

lemma invoke_fields:
  "dbInstance (snd (invoke f a w)) = dbInstance w \<and>
   initPromise (snd (invoke f a w)) = initPromise w \<and>
   inits (snd (invoke f a w)) = inits w \<and>
   disk (snd (invoke f a w)) = disk w \<and>
   plan (snd (invoke f a w)) = plan w"
proof (induction f arbitrary: w)
  case (Native c)
  then show ?case by simp
next
  case (Log_wrapper f)
  then show ?case
    using Log_wrapper.IH[of w]
    by (cases "invoke f a w") (auto simp: saveLog_def split: sum.splits option.splits)
next
  case (Warn_wrapper f)
  then show ?case
    using Warn_wrapper.IH[of w]
    by (cases "invoke f a w") (auto simp: saveLog_def split: sum.splits option.splits)
next
  case (Error_wrapper f)
  then show ?case
    using Error_wrapper.IH[of w]
    by (cases "invoke f a w")
      (auto simp: saveLog_def split: sum.splits option.splits jsval.splits)
qed

lemma invoke_inits: "inits (snd (invoke f a w)) = inits w"
  using invoke_fields[of f a w] by simp

lemma stable_next_outcome: "stable_open P \<Longrightarrow> P w \<Longrightarrow> P (snd (next_outcome w))"
  by (simp add: next_outcome_def stable_plan split: list.splits)

lemma next_outcome_fields [simp]:
  "dbInstance (snd (next_outcome w)) = dbInstance w"
  "initPromise (snd (next_outcome w)) = initPromise w"
  "inits (snd (next_outcome w)) = inits w"
  "disk (snd (next_outcome w)) = disk w"
  by (simp_all add: next_outcome_def split: list.splits)

lemma stable_initDB: "stable_open P \<Longrightarrow> P w \<Longrightarrow> P (snd (initDB w))"
  by (simp add: initDB_def Let_def stable_initDB_new split: option.splits)

lemma stable_onerror:
  assumes "stable_open P" "P w" "k < length (inits w)" "inits w ! k = Pending"
  shows "P (onerror k ev w)"
proof -
  obtain r w1 where i: "invoke (console_error w) [JStr ''IndexedDB error:'', ev] w = (r, w1)"
    by (cases "invoke (console_error w) [JStr ''IndexedDB error:'', ev] w")
  have P1: "P w1"
    using stable_invoke[OF assms(1,2), of "console_error w" "[JStr ''IndexedDB error:'', ev]"] i
    by simp
  have k1: "k < length (inits w1)" "inits w1 ! k = Pending"
    using invoke_inits[of "console_error w" "[JStr ''IndexedDB error:'', ev]" w] i assms(3,4)
    by simp_all
  show ?thesis
    using i P1 stable_reject[OF assms(1) P1 k1] by (simp add: onerror_def split: sum.splits)
qed

lemma stable_open_completes:
  assumes "stable_open P" "P w"
  shows "P (open_completes k w)"
proof (cases "k < length (inits w) \<and> inits w ! k = Pending")
  case False
  then show ?thesis using assms by (auto simp: open_completes_def)
next
  case True
  obtain x w1 where no: "next_outcome w = (x, w1)" by (cases "next_outcome w")
  then have w1: "w1 = snd (next_outcome w)" by simp
  have P1: "P w1" using assms stable_next_outcome w1 by blast
  have k1: "k < length (inits w1)" "inits w1 ! k = Pending" using True w1 by simp_all
  show ?thesis
  proof (cases x)
    case Succeeds
    let ?w2 = "if disk w1 = None then onupgradeneeded w1 else w1"
    have P2: "P ?w2" using P1 assms(1) by (simp add: onupgradeneeded_def stable_create)
    have d2: "disk ?w2 \<noteq> None" by (simp add: onupgradeneeded_def)
    have k2: "k < length (inits ?w2)" "inits ?w2 ! k = Pending"
      using k1 by (simp_all add: onupgradeneeded_def)
    have "P (onsuccess k ?w2)"
      unfolding onsuccess_def using stable_onsuccess[OF assms(1) P2 k2 d2] .
    then show ?thesis using True no Succeeds by (simp add: open_completes_def)
  next
    case (Fails ev)
    then show ?thesis using True no stable_onerror[OF assms(1) P1 k1] by (simp add: open_completes_def)
  next
    case Aborts
    then show ?thesis using True no stable_onerror[OF assms(1) P1 k1] by (simp add: open_completes_def)
  qed
qed

lemma stable_await_init: "stable_open P \<Longrightarrow> P w \<Longrightarrow> P (snd (await_init p w))"
  by (simp add: await_init_def Let_def stable_open_completes split: promise.splits pstate.splits)

lemma stable_getDB: "stable_open P \<Longrightarrow> P w \<Longrightarrow> P (snd (getDB w))"
  using stable_await_init[of P "snd (initDB w)" "fst (initDB w)"] stable_initDB[of P w]
  by (auto simp: getDB_def split: prod.splits sum.splits option.splits)

lemma stable_db_onerror: "stable_open P \<Longrightarrow> P w \<Longrightarrow> P (db_onerror e w)"
  by (simp add: db_onerror_def stable_invoke)

lemma stable_addLogEntry:
  assumes "stable P" "P w"
  shows "P (snd (addLogEntry e w))"
proof -
  note so = stable_is_open[OF assms(1)]
  obtain r w1 where g: "getDB w = (r, w1)" by (cases "getDB w")
  have P1: "P w1" using stable_getDB[OF so assms(2)] g by simp
  obtain x w2 where no: "next_outcome w1 = (x, w2)" by (cases "next_outcome w1")
  have P2: "P w2" using stable_next_outcome[OF so P1] no by simp
  have d2: "disk w2 = disk w1" using no next_outcome_fields(4)[of w1] by simp
  show ?thesis
    using g no P1 P2 d2 assms(1) so
    by (auto simp: addLogEntry_def stable_db_onerror stable_add stable_abort
        split: sum.splits option.splits outcome.splits)
qed

lemma stable_getAllLogs:
  assumes "stable_open P" "P w"
  shows "P (snd (getAllLogs w))"
proof -
  obtain r w1 where g: "getDB w = (r, w1)" by (cases "getDB w")
  have P1: "P w1" using stable_getDB[OF assms] g by simp
  obtain x w2 where no: "next_outcome w1 = (x, w2)" by (cases "next_outcome w1")
  have P2: "P w2" using stable_next_outcome[OF assms(1) P1] no by simp
  show ?thesis
    using g no P1 P2 assms(1)
    by (auto simp: getAllLogs_def stable_db_onerror
        split: sum.splits option.splits outcome.splits)
qed

lemma stable_clearAllLogs:
  assumes "stable P" "P w"
  shows "P (snd (clearAllLogs w))"
proof -
  note so = stable_is_open[OF assms(1)]
  obtain r w1 where g: "getDB w = (r, w1)" by (cases "getDB w")
  have P1: "P w1" using stable_getDB[OF so assms(2)] g by simp
  obtain x w2 where no: "next_outcome w1 = (x, w2)" by (cases "next_outcome w1")
  have P2: "P w2" using stable_next_outcome[OF so P1] no by simp
  have d2: "disk w2 = disk w1" using no next_outcome_fields(4)[of w1] by simp
  show ?thesis
    using g no P1 P2 d2 assms(1) so
    by (auto simp: clearAllLogs_def stable_db_onerror stable_clear
        split: sum.splits option.splits outcome.splits)
qed

text \<open>Fields the store module never writes.\<close>

lemma stable_open_listeners: "stable_open (\<lambda>v. listeners v = L)"
  by (simp add: stable_open_def)

lemma getAllLogs_listeners: "listeners (snd (getAllLogs w)) = listeners w"
  using stable_getAllLogs[OF stable_open_listeners, of w "listeners w"] by simp

lemma stable_fold_deliver:
  "stable P \<Longrightarrow> P w \<Longrightarrow> set xs \<subseteq> set (listeners w) \<Longrightarrow>
     P (fold (deliver Notified ls) xs w)"
proof (induction xs arbitrary: w)
  case Nil
  then show ?case by simp
next
  case (Cons x xs)
  have "P (deliver Notified ls x w)"
    unfolding deliver_def using Cons.prems by (simp add: stable_notified)
  moreover have "set xs \<subseteq> set (listeners (deliver Notified ls x w))"
    using Cons.prems by (simp add: deliver_def)
  ultimately show ?case using Cons.IH Cons.prems(1) by simp
qed

lemma stable_notifyListeners:
  assumes "stable P" "P w"
  shows "P (notifyListeners w)"
proof -
  note so = stable_is_open[OF assms(1)]
  obtain r w1 where g: "getAllLogs w = (r, w1)" by (cases "getAllLogs w")
  have P1: "P w1" using stable_getAllLogs[OF so assms(2)] g by simp
  show ?thesis
    using g P1 assms(1) so
    by (auto simp: notifyListeners_def stable_invoke stable_fold_deliver split: sum.splits)
qed

lemma stable_saveLog_resume:
  assumes "stable P" "P w"
  shows "P (saveLog_resume e w)"
proof -
  note so = stable_is_open[OF assms(1)]
  obtain r w1 where g: "addLogEntry e w = (r, w1)" by (cases "addLogEntry e w")
  have P1: "P w1" using stable_addLogEntry[OF assms, of e] g by simp
  show ?thesis
    using g P1 so
    by (auto simp: saveLog_resume_def stable_invoke stable_tasks split: sum.splits option.splits)
qed

lemma stable_Logger_clear_resume:
  assumes "stable P" "P w"
  shows "P (Logger_clear_resume w)"
proof -
  note so = stable_is_open[OF assms(1)]
  obtain r w1 where g: "clearAllLogs w = (r, w1)" by (cases "clearAllLogs w")
  have P1: "P w1" using stable_clearAllLogs[OF assms] g by simp
  show ?thesis
    using g P1 so by (auto simp: Logger_clear_resume_def stable_tasks split: sum.splits)
qed

lemma stable_initial_scan:
  assumes "stable P" "P w"
  shows "P (initial_scan l w)"
proof -
  note so = stable_is_open[OF assms(1)]
  obtain r w1 where g: "getAllLogs w = (r, w1)" by (cases "getAllLogs w")
  have P1: "P w1" using stable_getAllLogs[OF so assms(2)] g by simp
  show ?thesis
    using g P1 assms(1)
    by (auto simp: initial_scan_def deliver_def stable_initial split: sum.splits)
qed

lemma stable_refreshLogs:
  assumes "stable P" "P w"
  shows "P (refreshLogs w)"
proof -
  note so = stable_is_open[OF assms(1)]
  obtain r w1 where g: "getAllLogs w = (r, w1)" by (cases "getAllLogs w")
  have P1: "P w1" using stable_getAllLogs[OF so assms(2)] g by simp
  show ?thesis
    using g P1 assms(1) so
    by (auto simp: refreshLogs_def stable_logs stable_invoke split: sum.splits)
qed

lemma stable_persistLog_resume:
  assumes "stable P" "P w"
  shows "P (persistLog_resume e w)"
proof -
  note so = stable_is_open[OF assms(1)]
  obtain r w1 where g: "addLogEntry e w = (r, w1)" by (cases "addLogEntry e w")
  have P1: "P w1" using stable_addLogEntry[OF assms, of e] g by simp
  show ?thesis
    using g P1 so assms(1)
    by (auto simp: persistLog_resume_def stable_invoke stable_refreshLogs split: sum.splits)
qed

lemma stable_run_task: "stable P \<Longrightarrow> P w \<Longrightarrow> P (run_task t w)"
  by (cases t)
    (simp_all add: run_task_def stable_saveLog_resume stable_notifyListeners
      stable_initial_scan stable_Logger_clear_resume stable_persistLog_resume)

lemma stable_step: "stable P \<Longrightarrow> P w \<Longrightarrow> P (step w)"
  by (simp add: step_def stable_run_task stable_tasks stable_is_open split: list.splits)

section \<open>The scan (C1)\<close>

lemma cursor_loop_append: "cursor_loop xs acc = acc @ xs"
  by (induction xs arbitrary: acc) simp_all















section \<open>When the engine does not fail\<close>

lemma next_outcome_empty: "plan w = [] \<Longrightarrow> next_outcome w = (Succeeds, w)"
  by (simp add: next_outcome_def)

lemma await_init_ok:
  assumes "k < length (inits w)" "inits w ! k = Pending" "plan w = []"
  shows "await_init (Init_promise k) w =
           (Inr (), onsuccess k (if disk w = None then onupgradeneeded w else w))"
  using assms
  by (simp add: await_init_def open_completes_def next_outcome_empty onsuccess_def
      onupgradeneeded_def Let_def)

lemma opened_facts:
  assumes "w1 = onsuccess k (if disk w = None then onupgradeneeded w else w)"
  shows "dbInstance w1 = Some k" "disk w1 \<noteq> None" "plan w1 = plan w" "tasks w1 = tasks w"
    "persisted w1 = persisted w" "next_key w1 = next_key w"
  using assms
  by (auto simp: onsuccess_def onupgradeneeded_def persisted_def next_key_def
      createObjectStore_def)

lemma getDB_ok:
  assumes "can_open w" "plan w = []"
  shows "\<exists>c w1. getDB w = (Inr c, w1) \<and> dbInstance w1 = Some c \<and> disk w1 \<noteq> None \<and>
           plan w1 = [] \<and> tasks w1 = tasks w \<and> persisted w1 = persisted w \<and>
           next_key w1 = next_key w"
proof (cases "dbInstance w")
  case (Some c)
  then show ?thesis using assms by (simp add: getDB_def can_open_def)
next
  case None
  obtain p w0 where i: "initDB w = (p, w0)" by (cases "initDB w")
  obtain k where k: "p = Init_promise k" "k < length (inits w0)" "inits w0 ! k = Pending"
      "plan w0 = []" "tasks w0 = tasks w" "disk w0 = disk w"
    using i None assms
    by (auto simp: initDB_def can_open_def Let_def split: option.splits)
  let ?w1 = "onsuccess k (if disk w0 = None then onupgradeneeded w0 else w0)"
  have a: "await_init p w0 = (Inr (), ?w1)" using await_init_ok k by simp
  have same: "persisted w0 = persisted w" "next_key w0 = next_key w"
    using k(6) by (simp_all add: persisted_def next_key_def)
  have "getDB w = (Inr k, ?w1)"
    using None i a opened_facts(1)[OF refl, of k w0] by (simp add: getDB_def)
  then show ?thesis
    using opened_facts[OF refl, of k w0] k(4,5) same by simp
qed

lemma can_open_connected: "dbInstance w = Some c \<Longrightarrow> disk w \<noteq> None \<Longrightarrow> can_open w"
  by (simp add: can_open_def)

lemma addLogEntry_ok:
  assumes "can_open w" "plan w = []"
  shows "\<exists>w1. addLogEntry e w = (Inr (next_key w), w1) \<and>
           persisted w1 = persisted w @ [with_id (next_key w) e] \<and>
           next_key w1 = Suc (next_key w) \<and> can_open w1 \<and> plan w1 = [] \<and>
           tasks w1 = tasks w"
proof -
  obtain c w1 where g: "getDB w = (Inr c, w1)" "dbInstance w1 = Some c" "disk w1 \<noteq> None"
      "plan w1 = []" "tasks w1 = tasks w" "persisted w1 = persisted w" "next_key w1 = next_key w"
    using getDB_ok[OF assms] by blast
  obtain st where st: "disk w1 = Some st" using g(3) by blast
  have k: "keygen st = next_key w" "records st = persisted w"
    using st g(6,7) by (simp_all add: next_key_def persisted_def)
  show ?thesis
    using g st k
    by (simp add: addLogEntry_def next_outcome_empty store_add_def persisted_def next_key_def
        can_open_def)
qed

lemma getAllLogs_ok:
  assumes "can_open w" "plan w = []"
  shows "\<exists>w1. getAllLogs w = (Inr (rev (timestamp_index (persisted w))), w1) \<and>
           persisted w1 = persisted w \<and> next_key w1 = next_key w \<and> can_open w1 \<and>
           plan w1 = [] \<and> tasks w1 = tasks w"
proof -
  obtain c w1 where g: "getDB w = (Inr c, w1)" "dbInstance w1 = Some c" "disk w1 \<noteq> None"
      "plan w1 = []" "tasks w1 = tasks w" "persisted w1 = persisted w" "next_key w1 = next_key w"
    using getDB_ok[OF assms] by blast
  obtain st where st: "disk w1 = Some st" using g(3) by blast
  have k: "records st = persisted w" using st g(6) by (simp add: persisted_def)
  show ?thesis
    using g st k
    by (simp add: getAllLogs_def next_outcome_empty cursor_loop_append can_open_def)
qed



section \<open>Runs keep stable predicates\<close>

lemma stable_exec:
  assumes "stable P" "P w" "\<not> direct c"
  shows "P (exec c w)"
proof -
  note so = stable_is_open[OF assms(1)]
  show ?thesis
    using assms so
    by (cases c)
      (simp_all add: exec_def stable_invoke stable_saveLog Logger_internalError_def
        Logger_clear_def stable_tasks stable_initDB stable_open_completes logInfo_def
        logWarn_def logError_def persistLog_def stable_step split: error_or_string.splits)
qed

lemma stable_run:
  assumes "stable P" "\<And>c v. direct c \<Longrightarrow> c \<in> set cmds \<Longrightarrow> P v \<Longrightarrow> P (exec c (v::world))"
  shows "P w \<Longrightarrow> P (run cmds w)"
  using assms(2)
proof (induction cmds arbitrary: w)
  case Nil
  then show ?case by simp
next
  case (Cons c cs)
  have "P (exec c w)"
  proof (cases "direct c")
    case True
    then show ?thesis using Cons.prems by simp
  next
    case False
    then show ?thesis using stable_exec[OF assms(1)] Cons.prems(1) by simp
  qed
  then show ?case using Cons.IH Cons.prems(2) by simp
qed

lemma exec_direct:
  "exec Install w = initGlobalLogger w"
  "exec (Subscribe l) w = snd (Logger_subscribe l w)"
  "exec (Unsubscribe l) w = snd (unsubscribe (Delete_listener l) w)"
  "exec (SetClock t) w = w\<lparr>now := t\<rparr>"
  "exec Reload w = reload w"
  by (simp_all add: exec_def)

section \<open>One open per process (C2)\<close>

lemma stable_single_init: "stable single_init"
  by (auto simp: stable_def stable_open_def single_init_def split: option.splits)

lemma single_init_direct: "direct c \<Longrightarrow> single_init v \<Longrightarrow> single_init (exec c v)"
  by (cases c)
    (auto simp: exec_direct single_init_def initGlobalLogger_def Let_def
      Logger_subscribe_def reload_def split: option.splits)

lemma single_init_run: "single_init w \<Longrightarrow> single_init (run cmds w)"
  by (rule stable_run[OF stable_single_init]) (simp_all add: single_init_direct)

lemma single_init_boot: "single_init boot"
  by (simp add: single_init_def boot_def)

lemma initDB_connected: "dbInstance w \<noteq> None \<Longrightarrow> initDB w = (Resolved_now, w)"
  by (simp add: initDB_def)

lemma initDB_in_flight:
  "dbInstance w = None \<Longrightarrow> initPromise w = Some k \<Longrightarrow> initDB w = (Init_promise k, w)"
  by (simp add: initDB_def)

lemma initDB_times_in_flight:
  "dbInstance w = None \<Longrightarrow> initPromise w = Some k \<Longrightarrow>
     initDB_times n w = (replicate n (Init_promise k), w)"
  by (induction n) (simp_all add: initDB_in_flight)

lemma initDB_times_first:
  assumes "dbInstance w = None" "initPromise w = None" "0 < n"
  shows "initDB_times n w =
           (replicate n (Init_promise (length (inits w))),
            w\<lparr>inits := inits w @ [Pending], initPromise := Some (length (inits w))\<rparr>)"
proof -
  obtain m where n: "n = Suc m" using assms(3) by (cases n) auto
  let ?w1 = "w\<lparr>inits := inits w @ [Pending], initPromise := Some (length (inits w))\<rparr>"
  have i: "initDB w = (Init_promise (length (inits w)), ?w1)"
    using assms by (simp add: initDB_def Let_def)
  have "initDB_times m ?w1 = (replicate m (Init_promise (length (inits w))), ?w1)"
    by (rule initDB_times_in_flight) (simp_all add: assms)
  then show ?thesis using i n by simp
qed

lemma stable_inits_nonempty: "stable (\<lambda>v. inits v \<noteq> [])"
  by (simp add: stable_def stable_open_def)

lemma inits_nonempty_run:
  assumes "Reload \<notin> set cmds" "inits w \<noteq> []"
  shows "inits (run cmds w) \<noteq> []"
proof (rule stable_run[OF stable_inits_nonempty _ assms(2)])
  fix c and v :: world
  assume "direct c" "c \<in> set cmds" "inits v \<noteq> []"
  then show "inits (exec c v) \<noteq> []"
    using assms(1)
    by (cases c) (auto simp: exec_direct initGlobalLogger_def Let_def Logger_subscribe_def)
qed

lemma single_init_after_initDB: "single_init w \<Longrightarrow> inits (exec InitDB w) \<noteq> []"
  by (auto simp: exec_def initDB_def single_init_def Let_def split: option.splits)

lemma one_open_after_initDB:
  "single_init w \<Longrightarrow> InitDB \<in> set cmds \<Longrightarrow> Reload \<notin> set cmds \<Longrightarrow>
     inits (run cmds w) \<noteq> []"
proof (induction cmds arbitrary: w)
  case Nil
  then show ?case by simp
next
  case (Cons c cs)
  have s: "single_init (exec c w)"
    using single_init_run[OF Cons.prems(1), of "[c]"] by simp
  show ?case
  proof (cases "c = InitDB")
    case True
    then show ?thesis
      using single_init_after_initDB[OF Cons.prems(1)] inits_nonempty_run[of cs "exec c w"]
        Cons.prems(3) by simp
  next
    case False
    then show ?thesis using Cons.IH[OF s] Cons.prems by simp
  qed
qed

lemma single_init_length: "single_init w \<Longrightarrow> length (inits w) \<le> 1"
  by (auto simp: single_init_def split: option.splits)

text \<open>
  C2. \<^verbatim>\<open>initDB\<close> with a connection returns a resolved promise and changes nothing;
  with an initialization in flight it returns the stored promise and changes
  nothing; \<open>n\<close> calls in a row from a state with neither return one and the same
  promise and make one open request. Whatever the process does from its start, it
  never makes a second open request, and it has made exactly one once \<^verbatim>\<open>initDB\<close>
  has been called.
\<close>

theorem initDB_opens_once:
  "(dbInstance w \<noteq> None \<longrightarrow> initDB w = (Resolved_now, w)) \<and>
   (dbInstance w = None \<and> initPromise w = Some k \<longrightarrow> initDB w = (Init_promise k, w)) \<and>
   (dbInstance w = None \<and> initPromise w = None \<and> 0 < n \<longrightarrow>
      initDB_times n w =
        (replicate n (Init_promise (length (inits w))),
         w\<lparr>inits := inits w @ [Pending], initPromise := Some (length (inits w))\<rparr>)) \<and>
   length (inits (run cmds boot)) \<le> 1 \<and>
   (InitDB \<in> set cmds \<and> Reload \<notin> set cmds \<longrightarrow> length (inits (run cmds boot)) = 1)"
proof -
  have s: "single_init (run cmds boot)" using single_init_run[OF single_init_boot] .
  have le: "length (inits (run cmds boot)) \<le> 1" using single_init_length[OF s] .
  have "length (inits (run cmds boot)) = 1" if "InitDB \<in> set cmds \<and> Reload \<notin> set cmds"
    using one_open_after_initDB[OF single_init_boot, of cmds] that le
    by (cases "inits (run cmds boot)") auto
  then show ?thesis
    using le initDB_connected initDB_in_flight initDB_times_first by blast
qed

theorem initDB_opens_once_witness:
  "initDB (run [InitDB, OpenCompletes 0] boot) = (Resolved_now, run [InitDB, OpenCompletes 0] boot) \<and>
   initDB (run [InitDB] boot) = (Init_promise 0, run [InitDB] boot) \<and>
   initDB_times 3 boot =
     (replicate 3 (Init_promise 0), boot\<lparr>inits := [Pending], initPromise := Some 0\<rparr>) \<and>
   length (inits (run [InitDB, InitDB, Console Log [], Step, InitDB] boot)) = 1"
proof -
  have a: "dbInstance (run [InitDB, OpenCompletes 0] boot) \<noteq> None" by code_simp
  have b: "dbInstance (run [InitDB] boot) = None \<and> initPromise (run [InitDB] boot) = Some 0"
    by code_simp
  have c: "dbInstance boot = None \<and> initPromise boot = None \<and> (0::nat) < 3 \<and> inits boot = []"
    by (simp add: boot_def)
  have d: "InitDB \<in> set [InitDB, InitDB, Console Log [], Step, InitDB] \<and>
           Reload \<notin> set [InitDB, InitDB, Console Log [], Step, InitDB]" by simp
  show ?thesis
    using initDB_opens_once[of "run [InitDB, OpenCompletes 0] boot" 0 3
        "[InitDB, InitDB, Console Log [], Step, InitDB]"]
      initDB_opens_once[of "run [InitDB] boot" 0 3 "[]"]
      initDB_opens_once[of boot 0 3 "[]"] a b c d
    by simp
qed

section \<open>A rejected initialization (C10)\<close>

lemma stable_failed_init: "stable (failed_init e)"
  by (auto simp: stable_def stable_open_def failed_init_def)

lemma failed_init_direct:
  "direct c \<Longrightarrow> c \<noteq> Reload \<Longrightarrow> failed_init e v \<Longrightarrow> failed_init e (exec c v)"
  by (cases c)
    (auto simp: exec_direct failed_init_def initGlobalLogger_def Let_def Logger_subscribe_def)

lemma failed_init_run:
  assumes "Reload \<notin> set cmds" "failed_init e w"
  shows "failed_init e (run cmds w)"
proof (rule stable_run[OF stable_failed_init _ assms(2)])
  fix c and v :: world
  assume "direct c" "c \<in> set cmds" "failed_init e v"
  then show "failed_init e (exec c v)" using assms(1) failed_init_direct by metis
qed

lemma failed_init_getDB: "failed_init e w \<Longrightarrow> getDB w = (Inl e, w)"
  by (simp add: failed_init_def getDB_def initDB_def await_init_def open_completes_def)

lemma failed_init_ops:
  assumes "failed_init e w"
  shows "initDB w = (Init_promise 0, w)" "addLogEntry entry w = (Inl e, w)"
    "getAllLogs w = (Inl e, w)" "clearAllLogs w = (Inl e, w)"
  using failed_init_getDB[OF assms] assms
  by (simp_all add: addLogEntry_def getAllLogs_def clearAllLogs_def initDB_def failed_init_def)

lemma invoke_string_returns: "fst (invoke f (JStr s # rest) w) = Inr ()"
proof (induction f arbitrary: w)
  case (Native c)
  then show ?case by simp
next
  case (Log_wrapper f)
  show ?case
    using Log_wrapper.IH[of w]
    by (cases "invoke f (JStr s # rest) w") (auto simp: first_arg_def split: sum.splits)
next
  case (Warn_wrapper f)
  show ?case
    using Warn_wrapper.IH[of w]
    by (cases "invoke f (JStr s # rest) w") (auto simp: first_arg_def split: sum.splits)
next
  case (Error_wrapper f)
  show ?case
    using Error_wrapper.IH[of w]
    by (cases "invoke f (JStr s # rest) w") (auto simp: first_arg_def split: sum.splits)
qed

lemma first_open_rejected:
  assumes "dbInstance w = None" "initPromise w = None" "inits w = []" "plan w = Fails ev # rest"
  shows "failed_init (JStr ''Failed to open database'') (open_completes 0 (snd (initDB w)))"
proof -
  let ?w1 = "w\<lparr>inits := [Pending], initPromise := Some 0, plan := rest\<rparr>"
  obtain r w2 where i: "invoke (console_error ?w1) [JStr ''IndexedDB error:'', ev] ?w1 = (r, w2)"
    by (cases "invoke (console_error ?w1) [JStr ''IndexedDB error:'', ev] ?w1")
  have r: "r = Inr ()"
    using invoke_string_returns[of "console_error ?w1" "''IndexedDB error:''" "[ev]" ?w1] i
    by simp
  have e: "dbInstance w2 = None" "initPromise w2 = Some 0" "inits w2 = [Pending]"
    using invoke_fields[of "console_error ?w1" "[JStr ''IndexedDB error:'', ev]" ?w1] i assms
    by simp_all
  have n: "next_outcome (w\<lparr>inits := [Pending], initPromise := Some 0\<rparr>) = (Fails ev, ?w1)"
    using assms by (simp add: next_outcome_def)
  have o: "open_completes 0 (snd (initDB w)) =
      w2\<lparr>inits := (inits w2)[0 := Rejected (JStr ''Failed to open database'')]\<rparr>"
    using assms i r n
    by (simp add: initDB_def Let_def open_completes_def onerror_def)
  show ?thesis
    using e by (simp add: o failed_init_def)
qed

text \<open>
  C10. When the first open request of the process is rejected, \<^verbatim>\<open>initPromise\<close>
  stays the rejected promise for as long as the process lives: no command but a
  reload clears it and no second open is made, \<^verbatim>\<open>initDB\<close> keeps returning it, and
  every insert, scan and clear rejects with its reason, the string
  \<^verbatim>\<open>Failed to open database\<close>, without reaching the store.
\<close>

theorem rejected_init_is_permanent:
  "dbInstance w = None \<and> initPromise w = None \<and> inits w = [] \<and> plan w = Fails ev # rest \<Longrightarrow>
   Reload \<notin> set cmds \<Longrightarrow>
   v = run cmds (open_completes 0 (snd (initDB w))) \<Longrightarrow>
     failed_init (JStr ''Failed to open database'') v \<and>
     inits v = [Rejected (JStr ''Failed to open database'')] \<and>
     initDB v = (Init_promise 0, v) \<and>
     addLogEntry entry v = (Inl (JStr ''Failed to open database''), v) \<and>
     getAllLogs v = (Inl (JStr ''Failed to open database''), v) \<and>
     clearAllLogs v = (Inl (JStr ''Failed to open database''), v)"
proof -
  assume a: "dbInstance w = None \<and> initPromise w = None \<and> inits w = [] \<and> plan w = Fails ev # rest"
    and r: "Reload \<notin> set cmds" and v: "v = run cmds (open_completes 0 (snd (initDB w)))"
  have "failed_init (JStr ''Failed to open database'') (open_completes 0 (snd (initDB w)))"
    using first_open_rejected a by blast
  then have f: "failed_init (JStr ''Failed to open database'') v"
    using failed_init_run[OF r] v by simp
  show ?thesis
    using f failed_init_ops(1)[OF f] failed_init_ops(2)[OF f, of entry]
      failed_init_ops(3,4)[OF f]
    by (simp add: failed_init_def)
qed

theorem rejected_init_is_permanent_witness:
  "dbInstance broken = None \<and> initPromise broken = None \<and> inits broken = [] \<and>
   plan broken = Fails JNull # [] \<and>
   Reload \<notin> set [Install, Console Log [JStr ''x''], Step, InitDB, Subscribe 1, Step, Clear, Step] \<and>
   inits (run [Install, Console Log [JStr ''x''], Step, InitDB, Subscribe 1, Step, Clear, Step]
            (open_completes 0 (snd (initDB broken)))) =
     [Rejected (JStr ''Failed to open database'')] \<and>
   fst (getAllLogs (run [Install, Console Log [JStr ''x''], Step, InitDB, Subscribe 1, Step, Clear, Step]
            (open_completes 0 (snd (initDB broken))))) = Inl (JStr ''Failed to open database'') \<and>
   persisted (run [Install, Console Log [JStr ''x''], Step, InitDB, Subscribe 1, Step, Clear, Step]
            (open_completes 0 (snd (initDB broken)))) = []"
proof -
  have a: "dbInstance broken = None \<and> initPromise broken = None \<and> inits broken = [] \<and>
      plan broken = Fails JNull # []"
    by (simp add: broken_def boot_def)
  have r: "Reload \<notin> set [Install, Console Log [JStr ''x''], Step, InitDB, Subscribe 1, Step, Clear, Step]"
    by simp
  have p: "persisted (run [Install, Console Log [JStr ''x''], Step, InitDB, Subscribe 1, Step, Clear, Step]
            (open_completes 0 (snd (initDB broken)))) = []"
    by code_simp
  show ?thesis
    using rejected_init_is_permanent[OF a r refl] a r p by simp
qed

section \<open>Ids (C7)\<close>

lemma sorted_wrt_snoc_less:
  "sorted_wrt (<) xs \<Longrightarrow> list_all (\<lambda>i. i < k) xs \<Longrightarrow> sorted_wrt (<) (xs @ [k::nat])"
  by (simp add: sorted_wrt_append list_all_iff)

lemma sorted_wrt_snoc_le:
  "sorted_wrt (\<le>) xs \<Longrightarrow> list_all (\<lambda>i. i \<le> k) xs \<Longrightarrow> sorted_wrt (\<le>) (xs @ [k::nat])"
  by (simp add: sorted_wrt_append list_all_iff)

lemma list_all_less_Suc: "list_all (\<lambda>i. i < k) xs \<Longrightarrow> list_all (\<lambda>i. i < Suc k) xs"
  by (induction xs) auto

lemma list_all_le_Suc: "list_all (\<lambda>i. i \<le> k) xs \<Longrightarrow> list_all (\<lambda>i. i \<le> Suc k) xs"
  by (induction xs) auto

lemma list_all_key_Suc:
  "list_all (\<lambda>r. primary_key r < k) xs \<Longrightarrow> list_all (\<lambda>r. primary_key r < Suc k) xs"
  by (induction xs) auto

lemma primary_key_assigned: "primary_key (with_id k e) = k"
  by (simp add: primary_key_def with_id_def)

lemma ids_inv_commit:
  assumes "ids_inv w" "disk w = Some st"
  shows "ids_inv (w\<lparr>disk := Some (store_add e st), issued := issued w @ [(keygen st, True)]\<rparr>)"
  using assms
  by (simp add: ids_inv_def returned_ids_def committed_ids_def next_key_def persisted_def
      store_add_def sorted_wrt_snoc_less sorted_wrt_snoc_le list_all_less_Suc list_all_le_Suc
      list_all_key_Suc primary_key_assigned)

lemma ids_inv_abort:
  assumes "ids_inv w" "disk w = Some st"
  shows "ids_inv (w\<lparr>issued := issued w @ [(keygen st, False)]\<rparr>)"
  using assms
  by (simp add: ids_inv_def returned_ids_def committed_ids_def next_key_def persisted_def
      sorted_wrt_snoc_le)

lemma stable_ids_inv: "stable ids_inv"
  unfolding stable_def stable_open_def
proof (intro conjI allI impI)
  fix w :: world and st e
  assume i: "ids_inv w" and d: "disk w = Some st"
  show "ids_inv (w\<lparr>disk := Some (store_add e st), issued := issued w @ [(keygen st, True)]\<rparr>)"
    using ids_inv_commit[OF i d] .
  show "ids_inv (w\<lparr>issued := issued w @ [(keygen st, False)]\<rparr>)"
    using ids_inv_abort[OF i d] .
qed (auto simp: ids_inv_def returned_ids_def committed_ids_def next_key_def persisted_def
      createObjectStore_def store_clear_def)

lemma ids_inv_direct: "direct c \<Longrightarrow> ids_inv v \<Longrightarrow> ids_inv (exec c v)"
  by (cases c)
    (auto simp: exec_direct ids_inv_def returned_ids_def committed_ids_def next_key_def
      persisted_def initGlobalLogger_def Let_def Logger_subscribe_def reload_def)

lemma ids_inv_run: "ids_inv w \<Longrightarrow> ids_inv (run cmds w)"
  by (rule stable_run[OF stable_ids_inv]) (simp_all add: ids_inv_direct)

lemma ids_inv_boot: "ids_inv boot"
  by (simp add: ids_inv_def returned_ids_def committed_ids_def boot_def persisted_def)

lemma extends_snoc:
  assumes "extends old k w" "k \<le> j"
  shows "\<exists>new. issued w @ [(j, c)] = old @ new \<and> list_all (\<lambda>x. k \<le> fst x) new"
proof -
  obtain new where n: "issued w = old @ new" "list_all (\<lambda>x. k \<le> fst x) new"
    using assms(1) by (auto simp: extends_def)
  have "issued w @ [(j, c)] = old @ (new @ [(j, c)])" using n(1) by simp
  moreover have "list_all (\<lambda>x. k \<le> fst x) (new @ [(j, c)])" using n(2) assms(2) by simp
  ultimately show ?thesis by blast
qed

lemma stable_extends: "stable (extends old k)"
  unfolding stable_def stable_open_def
proof (intro conjI allI impI)
  fix w :: world and st e
  assume i: "extends old k w" and d: "disk w = Some st"
  have j: "k \<le> keygen st" using i d by (simp add: extends_def next_key_def)
  show "extends old k (w\<lparr>disk := Some (store_add e st), issued := issued w @ [(keygen st, True)]\<rparr>)"
    using extends_snoc[OF i j, of True] j by (simp add: extends_def next_key_def store_add_def)
  show "extends old k (w\<lparr>issued := issued w @ [(keygen st, False)]\<rparr>)"
    using extends_snoc[OF i j, of False] i by (simp add: extends_def next_key_def)
qed (auto simp: extends_def next_key_def createObjectStore_def store_clear_def)

lemma extends_direct: "direct c \<Longrightarrow> extends old k v \<Longrightarrow> extends old k (exec c v)"
  by (cases c)
    (auto simp: exec_direct extends_def next_key_def initGlobalLogger_def Let_def
      Logger_subscribe_def reload_def)

lemma extends_run: "extends old k w \<Longrightarrow> extends old k (run cmds w)"
  by (rule stable_run[OF stable_extends]) (simp_all add: extends_direct)

lemma stable_open_ids: "stable_open (\<lambda>v. issued v = I \<and> next_key v = K \<and> persisted v = X)"
  by (auto simp: stable_open_def next_key_def persisted_def createObjectStore_def)

lemma addLogEntry_result:
  assumes "addLogEntry e w = (Inr k, w')"
  shows "k = next_key w \<and>
         (\<exists>c. issued w' = issued w @ [(k, c)] \<and>
              persisted w' = (if c then persisted w @ [with_id k e] else persisted w))"
proof -
  obtain r1 w1 where g: "getDB w = (r1, w1)" by (cases "getDB w")
  have f1: "issued w1 = issued w \<and> next_key w1 = next_key w \<and> persisted w1 = persisted w"
    using stable_getDB[OF stable_open_ids, of w "issued w" "next_key w" "persisted w"] g by simp
  obtain x w2 where no: "next_outcome w1 = (x, w2)" by (cases "next_outcome w1")
  have f2: "issued w2 = issued w1" "disk w2 = disk w1"
    using no by (auto simp: next_outcome_def split: list.splits)
  show ?thesis
  proof (cases x)
    case Succeeds
    then have "k = next_key w \<and> issued w' = issued w @ [(k, True)] \<and>
        persisted w' = persisted w @ [with_id k e]"
      using assms g no f1 f2
      by (auto simp: addLogEntry_def next_key_def persisted_def store_add_def
          split: sum.splits option.splits)
    then show ?thesis by auto
  next
    case (Fails ev)
    then show ?thesis
      using assms g no by (auto simp: addLogEntry_def split: sum.splits option.splits)
  next
    case Aborts
    then have "k = next_key w \<and> issued w' = issued w @ [(k, False)] \<and>
        persisted w' = persisted w"
      using assms g no f1 f2
      by (auto simp: addLogEntry_def next_key_def persisted_def
          split: sum.splits option.splits)
    then show ?thesis by auto
  qed
qed

lemma ids_inv_fresh:
  assumes "ids_inv w"
  shows "next_key w \<notin> set (committed_ids w)"
    "list_all (\<lambda>i. i < next_key w) (committed_ids w)"
    "list_all (\<lambda>i. i \<le> next_key w) (returned_ids w)"
    "list_all (\<lambda>r. id_key r \<noteq> Some (next_key w)) (persisted w)"
    "distinct (committed_ids w)" "sorted_wrt (<) (committed_ids w)"
    "sorted_wrt (\<le>) (returned_ids w)"
proof -
  show a: "list_all (\<lambda>i. i < next_key w) (committed_ids w)"
    using assms by (simp add: ids_inv_def)
  show "next_key w \<notin> set (committed_ids w)" using a by (auto simp: list_all_iff)
  show "list_all (\<lambda>i. i \<le> next_key w) (returned_ids w)" using assms by (simp add: ids_inv_def)
  have "list_all (\<lambda>r. primary_key r < next_key w) (persisted w)"
    using assms by (simp add: ids_inv_def)
  then show "list_all (\<lambda>r. id_key r \<noteq> Some (next_key w)) (persisted w)"
    by (auto simp: list_all_iff primary_key_def)
  show s: "sorted_wrt (<) (committed_ids w)" using assms by (simp add: ids_inv_def)
  show "distinct (committed_ids w)" using s strict_sorted_iff by blast
  show "sorted_wrt (\<le>) (returned_ids w)" using assms by (simp add: ids_inv_def)
qed

text \<open>
  C7, as the code has it. The ids are the store's: over any run, reloads and
  clears included, the ids of the inserts whose transaction committed are strictly
  increasing in the order they were given out, so no two are equal, and the ids
  \<^verbatim>\<open>addLogEntry\<close> resolved with never decrease; ids given out earlier stay on
  record and every later one is at least the key the generator held before. An
  insert that resolves returns the generator's key, which is above the id of every
  committed insert, below no id resolved before, and the id of no stored record,
  also after a clear; when its transaction commits, the record is stored under it.
\<close>

theorem committed_ids_unique_and_increasing:
  "ids_inv w \<Longrightarrow>
     ids_inv (run cmds w) \<and>
     sorted_wrt (<) (committed_ids (run cmds w)) \<and>
     distinct (committed_ids (run cmds w)) \<and>
     sorted_wrt (\<le>) (returned_ids (run cmds w)) \<and>
     (\<exists>new. issued (run cmds w) = issued w @ new \<and> list_all (\<lambda>x. next_key w \<le> fst x) new) \<and>
     (\<forall>e k w'. addLogEntry e (run cmds w) = (Inr k, w') \<longrightarrow>
        k \<notin> set (committed_ids (run cmds w)) \<and>
        list_all (\<lambda>i. i < k) (committed_ids (run cmds w)) \<and>
        list_all (\<lambda>i. i \<le> k) (returned_ids (run cmds w)) \<and>
        list_all (\<lambda>r. id_key r \<noteq> Some k) (persisted (run cmds w)) \<and>
        (\<exists>c. issued w' = issued (run cmds w) @ [(k, c)] \<and>
             persisted w' =
               (if c then persisted (run cmds w) @ [with_id k e] else persisted (run cmds w))))"
proof -
  assume i: "ids_inv w"
  have r: "ids_inv (run cmds w)" using ids_inv_run[OF i] .
  have "extends (issued w) (next_key w) w" by (simp add: extends_def)
  then have "extends (issued w) (next_key w) (run cmds w)" by (rule extends_run)
  then have n: "\<exists>new. issued (run cmds w) = issued w @ new \<and>
      list_all (\<lambda>x. next_key w \<le> fst x) new"
    by (simp add: extends_def)
  have a: "k \<notin> set (committed_ids (run cmds w)) \<and>
        list_all (\<lambda>i. i < k) (committed_ids (run cmds w)) \<and>
        list_all (\<lambda>i. i \<le> k) (returned_ids (run cmds w)) \<and>
        list_all (\<lambda>r. id_key r \<noteq> Some k) (persisted (run cmds w)) \<and>
        (\<exists>c. issued w' = issued (run cmds w) @ [(k, c)] \<and>
             persisted w' =
               (if c then persisted (run cmds w) @ [with_id k e] else persisted (run cmds w)))"
    if h: "addLogEntry e (run cmds w) = (Inr k, w')" for e k w'
  proof -
    obtain c where k: "k = next_key (run cmds w)"
      and c: "issued w' = issued (run cmds w) @ [(k, c)] \<and>
             persisted w' =
               (if c then persisted (run cmds w) @ [with_id k e] else persisted (run cmds w))"
      using addLogEntry_result[OF h] by blast
    have "\<exists>c. issued w' = issued (run cmds w) @ [(k, c)] \<and>
             persisted w' =
               (if c then persisted (run cmds w) @ [with_id k e] else persisted (run cmds w))"
      using c by (rule exI)
    then show ?thesis using ids_inv_fresh(1,2,3,4)[OF r] k by blast
  qed
  show ?thesis
    using r ids_inv_fresh(5,6,7)[OF r] n a by blast
qed

theorem committed_ids_unique_and_increasing_witness:
  "ids_inv boot \<and>
   issued (run [LogInfo ''a'' None, Step, Clear, Step, Reload, Install, Console Log [JStr ''b''], Step,
           Step, LogWarn ''c'' None, Step] boot) = [(1, True), (2, True), (3, True)] \<and>
   distinct (committed_ids (run [LogInfo ''a'' None, Step, Clear, Step, Reload, Install, Console Log [JStr ''b''], Step,
           Step, LogWarn ''c'' None, Step] boot)) \<and>
   fst (addLogEntry \<lparr>timestamp = 0, level = INFO, message = ''d'', stackTrace = None,
          metadata = None\<rparr>
        (run [LogInfo ''a'' None, Step, Clear, Step, Reload, Install, Console Log [JStr ''b''], Step,
           Step, LogWarn ''c'' None, Step] boot)) = Inr 4 \<and>
   map id_key (persisted (run [LogInfo ''a'' None, Step, Clear, Step, Reload, Install, Console Log [JStr ''b''], Step,
           Step, LogWarn ''c'' None, Step] boot)) = [Some 2, Some 3]"
proof -
  have a: "issued (run [LogInfo ''a'' None, Step, Clear, Step, Reload, Install, Console Log [JStr ''b''], Step,
           Step, LogWarn ''c'' None, Step] boot) = [(1, True), (2, True), (3, True)]"
    by code_simp
  have b: "fst (addLogEntry \<lparr>timestamp = 0, level = INFO, message = ''d'', stackTrace = None,
          metadata = None\<rparr>
        (run [LogInfo ''a'' None, Step, Clear, Step, Reload, Install, Console Log [JStr ''b''], Step,
           Step, LogWarn ''c'' None, Step] boot)) = Inr 4"
    by code_simp
  have c: "map id_key (persisted (run [LogInfo ''a'' None, Step, Clear, Step, Reload, Install, Console Log [JStr ''b''], Step,
           Step, LogWarn ''c'' None, Step] boot)) = [Some 2, Some 3]"
    by code_simp
  show ?thesis
    using committed_ids_unique_and_increasing[OF ids_inv_boot,
        of "[LogInfo ''a'' None, Step, Clear, Step, Reload, Install, Console Log [JStr ''b''], Step,
           Step, LogWarn ''c'' None, Step]"] ids_inv_boot a b c
    by simp
qed

text \<open>
  C7 as the specification words it does not hold: \<^verbatim>\<open>addLogEntry\<close> resolves when its
  request succeeds and does not wait for the transaction. Here the transaction of
  the first insert fails to commit: the record is not stored, the key generator
  is back at 1, and the second insert resolves with the id the first one
  resolved with.
\<close>

theorem id_returned_twice_counterexample:
  "issued (run [LogInfo ''a'' None, Step, LogInfo ''b'' None, Step] aborting) =
     [(1, False), (1, True)] \<and>
   returned_ids (run [LogInfo ''a'' None, Step, LogInfo ''b'' None, Step] aborting) = [1, 1] \<and>
   map (\<lambda>r. (id_key r, message r))
     (persisted (run [LogInfo ''a'' None, Step, LogInfo ''b'' None, Step] aborting)) =
     [(Some 1, ''b'')]"
  by code_simp

section \<open>Observers (C8, C9)\<close>

lemma stable_unsubscribed: "stable (\<lambda>v. l \<notin> set (listeners v) \<and> notified l v = N)"
  by (auto simp: stable_def stable_open_def notified_def)

lemma unsubscribed_direct:
  "direct c \<Longrightarrow> c \<noteq> Subscribe l \<Longrightarrow> l \<notin> set (listeners v) \<and> notified l v = N \<Longrightarrow>
     l \<notin> set (listeners (exec c v)) \<and> notified l (exec c v) = N"
  by (cases c)
    (auto simp: exec_direct notified_def initGlobalLogger_def Let_def Logger_subscribe_def
      reload_def)

lemma unsubscribed_run:
  assumes "Subscribe l \<notin> set cmds" "l \<notin> set (listeners w)"
  shows "l \<notin> set (listeners (run cmds w)) \<and> notified l (run cmds w) = notified l w"
proof (rule stable_run[OF stable_unsubscribed, of cmds l "notified l w" w])
  fix c and v :: world
  assume "direct c" "c \<in> set cmds" "l \<notin> set (listeners v) \<and> notified l v = notified l w"
  then show "l \<notin> set (listeners (exec c v)) \<and> notified l (exec c v) = notified l w"
    using assms(1) unsubscribed_direct[of c l v "notified l w"] by auto
next
  show "l \<notin> set (listeners w) \<and> notified l w = notified l w" using assms(2) by simp
qed

lemma unsubscribe_removes:
  "l \<notin> set (listeners (snd (unsubscribe (Delete_listener l) w)))"
  "notified l (snd (unsubscribe (Delete_listener l) w)) = notified l w"
  by (simp_all add: notified_def)

lemma unsubscribe_absent:
  "l \<notin> set (listeners w) \<Longrightarrow> unsubscribe (Delete_listener l) w = (False, w)"
  by simp

text \<open>
  C9. The handle of \<^verbatim>\<open>subscribe\<close> takes its observer out of the set. From then
  on, whatever the process does short of subscribing the observer again, no
  insert and no clear has \<^verbatim>\<open>notifyListeners\<close> call it: the log sets it has been
  notified with stay those it had when it was removed. Calling the handle of an
  observer that is not in the set returns false and changes nothing.
\<close>

theorem unsubscribed_never_notified:
  "Subscribe l \<notin> set cmds \<Longrightarrow>
     fst (Logger_subscribe l w0) = Delete_listener l \<and>
     l \<notin> set (listeners (snd (unsubscribe (Delete_listener l) w))) \<and>
     l \<notin> set (listeners (run cmds (snd (unsubscribe (Delete_listener l) w)))) \<and>
     notified l (run cmds (snd (unsubscribe (Delete_listener l) w))) = notified l w \<and>
     (l \<notin> set (listeners w) \<longrightarrow> unsubscribe (Delete_listener l) w = (False, w))"
proof -
  assume a: "Subscribe l \<notin> set cmds"
  show ?thesis
    using unsubscribed_run[OF a unsubscribe_removes(1), of w] unsubscribe_removes[of l w]
      unsubscribe_absent[of l w]
    by (simp add: Logger_subscribe_def)
qed

theorem unsubscribed_never_notified_witness:
  "Subscribe 1 \<notin> set [Console Log [JStr ''y''], Step, Step, Clear, Step, Step] \<and>
   notified 1 watched = [[\<lparr>timestamp = 0, level = INFO, message = ''x'',
        stackTrace = None, metadata = None, id_key = Some 1\<rparr>]] \<and>
   notified 1 (run [Console Log [JStr ''y''], Step, Step, Clear, Step, Step]
     (snd (unsubscribe (Delete_listener 1) watched))) = notified 1 watched \<and>
   length (notified 2 (run [Console Log [JStr ''y''], Step, Step, Clear, Step, Step]
     (snd (unsubscribe (Delete_listener 1) watched)))) = 3 \<and>
   unsubscribe (Delete_listener 1) (snd (unsubscribe (Delete_listener 1) watched)) =
     (False, snd (unsubscribe (Delete_listener 1) watched))"
proof -
  have a: "Subscribe 1 \<notin> set [Console Log [JStr ''y''], Step, Step, Clear, Step, Step]"
    by simp
  have b: "notified 1 watched = [[\<lparr>timestamp = 0, level = INFO, message = ''x'',
        stackTrace = None, metadata = None, id_key = Some 1\<rparr>]]"
    by code_simp
  have c: "length (notified 2 (run [Console Log [JStr ''y''], Step, Step, Clear, Step, Step]
     (snd (unsubscribe (Delete_listener 1) watched)))) = 3"
    by code_simp
  show ?thesis
    using unsubscribed_never_notified[OF a, of watched watched]
      unsubscribed_never_notified[OF a, of watched "snd (unsubscribe (Delete_listener 1) watched)"]
      a b c
    by simp
qed

section \<open>Tasks when the engine does not fail\<close>


lemma can_open_cong:
  "dbInstance v = dbInstance w \<Longrightarrow> initPromise v = initPromise w \<Longrightarrow> inits v = inits w \<Longrightarrow>
     disk v = disk w \<Longrightarrow> can_open v = can_open w"
  by (auto simp: can_open_def split: option.splits)

lemma can_open_updates:
  "can_open (w\<lparr>tasks := x\<rparr>) = can_open w"
  "can_open (w\<lparr>out := y\<rparr>) = can_open w"
  "can_open (w\<lparr>logs := z\<rparr>) = can_open w"
  "can_open (w\<lparr>delivered := u\<rparr>) = can_open w"
  by (rule can_open_cong; simp)+

lemma stable_open_observers: "stable_open (\<lambda>v. delivered v = D \<and> listeners v = L)"
  by (simp add: stable_open_def)

lemma getAllLogs_observers:
  "getAllLogs w = (r, w1) \<Longrightarrow> delivered w1 = delivered w \<and> listeners w1 = listeners w"
  using stable_getAllLogs[OF stable_open_observers, of w "delivered w" "listeners w"] by simp

lemma step_SaveLog_ok:
  assumes "tasks w = SaveLog e # ts" "can_open w" "plan w = []"
  shows "persisted (step w) = persisted w @ [with_id (next_key w) e] \<and>
         tasks (step w) = ts @ [NotifyListeners] \<and> can_open (step w) \<and> plan (step w) = [] \<and>
         next_key (step w) = Suc (next_key w)"
proof -
  let ?w0 = "w\<lparr>tasks := ts\<rparr>"
  have c0: "can_open ?w0" "plan ?w0 = []" "persisted ?w0 = persisted w" "next_key ?w0 = next_key w"
    using assms by (simp_all add: can_open_updates persisted_def next_key_def)
  obtain w1 where a: "addLogEntry e ?w0 = (Inr (next_key ?w0), w1)"
      "persisted w1 = persisted ?w0 @ [with_id (next_key ?w0) e]"
      "next_key w1 = Suc (next_key ?w0)" "can_open w1" "plan w1 = []" "tasks w1 = tasks ?w0"
    using addLogEntry_ok[OF c0(1,2), of e] by blast
  have s: "step w = w1\<lparr>tasks := tasks w1 @ [NotifyListeners]\<rparr>"
    using assms(1) a(1) by (simp add: step_def run_task_def saveLog_resume_def)
  show ?thesis
    using a c0 by (simp add: s can_open_updates persisted_def next_key_def)
qed

lemma step_PersistLog_ok:
  assumes "tasks w = PersistLog e # ts" "can_open w" "plan w = []"
  shows "persisted (step w) = persisted w @ [with_id (next_key w) e] \<and>
         tasks (step w) = ts \<and> can_open (step w) \<and> plan (step w) = [] \<and>
         next_key (step w) = Suc (next_key w)"
proof -
  let ?w0 = "w\<lparr>tasks := ts\<rparr>"
  have c0: "can_open ?w0" "plan ?w0 = []" "persisted ?w0 = persisted w" "next_key ?w0 = next_key w"
    using assms by (simp_all add: can_open_updates persisted_def next_key_def)
  obtain w1 where a: "addLogEntry e ?w0 = (Inr (next_key ?w0), w1)"
      "persisted w1 = persisted ?w0 @ [with_id (next_key ?w0) e]"
      "next_key w1 = Suc (next_key ?w0)" "can_open w1" "plan w1 = []" "tasks w1 = tasks ?w0"
    using addLogEntry_ok[OF c0(1,2), of e] by blast
  obtain w2 where g: "getAllLogs w1 = (Inr (rev (timestamp_index (persisted w1))), w2)"
      "persisted w2 = persisted w1" "next_key w2 = next_key w1" "can_open w2" "plan w2 = []"
      "tasks w2 = tasks w1"
    using getAllLogs_ok[OF a(4,5)] by blast
  have s: "step w = w2\<lparr>logs := rev (timestamp_index (persisted w1))\<rparr>"
    using assms(1) a(1) g(1)
    by (simp add: step_def run_task_def persistLog_resume_def refreshLogs_def)
  show ?thesis
    using a g c0 by (simp add: s can_open_updates persisted_def next_key_def)
qed


lemma step_InitialScan_ok:
  assumes "tasks w = InitialScan l # ts" "can_open w" "plan w = []"
  shows "fst (getAllLogs w) = Inr (rev (timestamp_index (persisted w))) \<and>
         delivered (step w) = delivered w @ [(l, Initial, rev (timestamp_index (persisted w)))] \<and>
         persisted (step w) = persisted w \<and> tasks (step w) = ts \<and> can_open (step w) \<and>
         plan (step w) = []"
proof -
  let ?w0 = "w\<lparr>tasks := ts\<rparr>"
  have c0: "can_open ?w0" "plan ?w0 = []" "persisted ?w0 = persisted w" "next_key ?w0 = next_key w"
    using assms by (simp_all add: can_open_updates persisted_def next_key_def)
  obtain w2 where g: "getAllLogs ?w0 = (Inr (rev (timestamp_index (persisted ?w0))), w2)"
      "persisted w2 = persisted ?w0" "next_key w2 = next_key ?w0" "can_open w2" "plan w2 = []"
      "tasks w2 = tasks ?w0"
    using getAllLogs_ok[OF c0(1,2)] by blast
  have d: "delivered w2 = delivered w" using getAllLogs_observers[OF g(1)] by simp
  have s: "step w = deliver Initial (rev (timestamp_index (persisted ?w0))) l w2"
    using assms(1) g(1) by (simp add: step_def run_task_def initial_scan_def)
  obtain w3 where "getAllLogs w = (Inr (rev (timestamp_index (persisted w))), w3)"
    using getAllLogs_ok[OF assms(2,3)] by blast
  then have "fst (getAllLogs w) = Inr (rev (timestamp_index (persisted w)))" by simp
  then show ?thesis
    using g c0 d by (simp add: s deliver_def can_open_updates persisted_def)
qed

section \<open>The first delivery of subscribe (C8)\<close>

lemma getAllLogs_fst:
  "getAllLogs v = (Inr ls, v') \<Longrightarrow>
     delivered (run_task (InitialScan l) v) = delivered v @ [(l, Initial, ls)]"
  using getAllLogs_observers[of v "Inr ls" v']
  by (simp add: run_task_def initial_scan_def deliver_def)

text \<open>
  C8, as the code has it. \<^verbatim>\<open>subscribe\<close> puts the observer into the set, starts a
  scan and returns the handle that deletes the observer. When that scan resolves,
  the observer is called with its result, the persisted records newest first,
  with no mutation needed; on a settled process this is the next thing to happen,
  and an empty store delivers the empty list.
\<close>

theorem subscribe_delivers_resolved_scan:
  "Logger_subscribe l w = (h, w') \<Longrightarrow>
     h = Delete_listener l \<and>
     l \<in> set (listeners w') \<and>
     tasks w' = tasks w @ [InitialScan l] \<and>
     l \<notin> set (listeners (snd (unsubscribe h w'))) \<and>
     (\<forall>v ls v'. getAllLogs v = (Inr ls, v') \<longrightarrow>
        delivered (run_task (InitialScan l) v) = delivered v @ [(l, Initial, ls)]) \<and>
     (settled w \<longrightarrow>
        fst (getAllLogs w) = Inr (rev (timestamp_index (persisted w))) \<and>
        delivered (step w') = delivered w @ [(l, Initial, rev (timestamp_index (persisted w)))] \<and>
        settled (step w'))"
proof -
  assume s: "Logger_subscribe l w = (h, w')"
  have h: "h = Delete_listener l" and w': "w' = snd (Logger_subscribe l w)"
    using s by (auto simp: Logger_subscribe_def)
  have a: "l \<in> set (listeners w')" "tasks w' = tasks w @ [InitialScan l]"
    "delivered w' = delivered w" "persisted w' = persisted w" "plan w' = plan w"
    unfolding w' by (simp_all add: Logger_subscribe_def persisted_def)
  have co: "can_open w' = can_open w"
    unfolding w' by (rule can_open_cong) (simp_all add: Logger_subscribe_def)
  have b: "l \<notin> set (listeners (snd (unsubscribe h w')))" by (simp add: h)
  have c: "fst (getAllLogs w) = Inr (rev (timestamp_index (persisted w))) \<and>
        delivered (step w') = delivered w @ [(l, Initial, rev (timestamp_index (persisted w)))] \<and>
        settled (step w')" if sw: "settled w"
  proof -
    have t: "tasks w' = InitialScan l # []" "can_open w'" "plan w' = []"
      using sw a co by (simp_all add: settled_def)
    obtain w3 where "getAllLogs w = (Inr (rev (timestamp_index (persisted w))), w3)"
      using getAllLogs_ok[of w] sw by (auto simp: settled_def)
    then have "fst (getAllLogs w) = Inr (rev (timestamp_index (persisted w)))" by simp
    then show ?thesis
      using step_InitialScan_ok[OF t] a by (simp add: settled_def)
  qed
  show ?thesis
    using h a(1,2) b c getAllLogs_fst by blast
qed

theorem subscribe_delivers_resolved_scan_witness:
  "Logger_subscribe 7 boot = (Delete_listener 7, snd (Logger_subscribe 7 boot)) \<and>
   settled boot \<and> persisted boot = [] \<and>
   delivered (step (snd (Logger_subscribe 7 boot))) = [(7, Initial, [])] \<and>
   settled (step (snd (Logger_subscribe 7 boot))) \<and>
   listeners (snd (Logger_subscribe 7 boot)) = [7]"
proof -
  have a: "Logger_subscribe 7 boot = (Delete_listener 7, snd (Logger_subscribe 7 boot))"
    by (simp add: Logger_subscribe_def)
  have b: "settled boot \<and> persisted boot = [] \<and> delivered boot = []"
    by (simp add: settled_def boot_def can_open_def persisted_def)
  have c: "listeners (snd (Logger_subscribe 7 boot)) = [7]"
    by (simp add: Logger_subscribe_def boot_def)
  show ?thesis
    using subscribe_delivers_resolved_scan[OF a] a b c by simp
qed

text \<open>
  C8 as the specification words it does not hold: the engine refuses to open the database, the
  scan started by \<^verbatim>\<open>subscribe\<close> rejects, and the registered observer is never
  called, although nothing is left to run.
\<close>

theorem subscribe_rejected_scan_counterexample:
  "listeners (run [Subscribe 7, Step] broken) = [7] \<and>
   tasks (run [Subscribe 7, Step] broken) = [] \<and>
   delivered (run [Subscribe 7, Step] broken) = []"
  by code_simp

section \<open>Captured console calls (C4, C5, C6)\<close>

lemma saveLog_fields:
  "tasks (saveLog lv m s a w) =
     tasks w @ [SaveLog \<lparr>timestamp = now w, level = lv, message = m,
        stackTrace = s, metadata = a\<rparr>]"
  "plan (saveLog lv m s a w) = plan w"
  "persisted (saveLog lv m s a w) = persisted w"
  "next_key (saveLog lv m s a w) = next_key w"
  "can_open (saveLog lv m s a w) = can_open w"
  "now (saveLog lv m s a w) = now w"
  by (simp_all add: saveLog_def persisted_def next_key_def can_open_updates)

lemma out_update_fields:
  "persisted (w\<lparr>out := x\<rparr>) = persisted w"
  "next_key (w\<lparr>out := x\<rparr>) = next_key w"
  by (simp_all add: persisted_def next_key_def)

lemma rest_args_Cons: "rest_args (v # aux) = (if aux = [] then None else Some (JArray aux))"
  by (cases aux) (simp_all add: rest_args_def)



lemma exec_Step: "exec Step w = step w"
  by (simp add: exec_def)










text \<open>
  C4, as the code has it. On the error channel, the installed \<^verbatim>\<open>console.error\<close>
  and \<^verbatim>\<open>logError\<close>, a primary value that is an instance of \<^verbatim>\<open>Error\<close> gives the
  record its message as \<open>message\<close> and its stack, when it has one, as \<open>stackTrace\<close>,
  at level \<open>ERROR\<close>.
\<close>

theorem error_channel_takes_message_and_stack:
  "settled w \<Longrightarrow> console_error w = Error_wrapper (Native Error) \<Longrightarrow>
     persisted (run [Console Error (JError n m st # aux), Step] w) =
       persisted w @
         [\<lparr>timestamp = now w, level = ERROR, message = m, stackTrace = st,
           metadata = (if aux = [] then None else Some (JArray aux)),
           id_key = Some (next_key w)\<rparr>] \<and>
     persisted (run [LogError (An_Error n m st) meta, Step] w) =
       persisted w @
         [\<lparr>timestamp = now w, level = ERROR, message = m, stackTrace = st, metadata = meta,
           id_key = Some (next_key w)\<rparr>]"
proof -
  assume a: "settled w" "console_error w = Error_wrapper (Native Error)"
  let ?v = "exec (Console Error (JError n m st # aux)) w"
  have 1: "tasks ?v = SaveLog \<lparr>timestamp = now w, level = ERROR, message = m,
        stackTrace = st, metadata = (if aux = [] then None else Some (JArray aux))\<rparr> # []"
    "can_open ?v" "plan ?v = []" "persisted ?v = persisted w" "next_key ?v = next_key w"
    using a
    by (simp_all add: exec_def console_fn_def settled_def saveLog_fields
        can_open_updates out_update_fields first_arg_def rest_args_Cons)
  let ?u = "exec (LogError (An_Error n m st) meta) w"
  have 2: "tasks ?u = PersistLog \<lparr>timestamp = now w, level = ERROR, message = m,
        stackTrace = st, metadata = meta\<rparr> # []"
    "can_open ?u" "plan ?u = []" "persisted ?u = persisted w" "next_key ?u = next_key w"
    using a
    by (simp_all add: exec_def settled_def logError_def persistLog_def can_open_updates
        persisted_def next_key_def)
  show ?thesis
    using step_SaveLog_ok[OF 1(1,2,3)] 1(4,5) step_PersistLog_ok[OF 2(1,2,3)] 2(4,5)
    by (simp add: exec_Step with_id_def)
qed

theorem error_channel_takes_message_and_stack_witness:
  "settled (index_tsx boot) \<and> console_error (index_tsx boot) = Error_wrapper (Native Error) \<and>
   persisted (run [Console Error [JError ''Error'' ''boom'' (Some ''at foo()'')], Step]
     (index_tsx boot)) =
     [\<lparr>timestamp = 0, level = ERROR, message = ''boom'', stackTrace = Some ''at foo()'',
       metadata = None, id_key = Some 1\<rparr>]"
proof -
  have s: "settled (index_tsx boot)"
    by (simp add: index_tsx_def initGlobalLogger_def Let_def settled_def boot_def can_open_def)
  have c: "console_error (index_tsx boot) = Error_wrapper (Native Error)"
    by (simp add: index_tsx_def initGlobalLogger_def Let_def boot_def)
  have p: "persisted (index_tsx boot) = [] \<and> next_key (index_tsx boot) = 1 \<and> now (index_tsx boot) = 0"
    by (simp add: index_tsx_def initGlobalLogger_def Let_def persisted_def next_key_def boot_def)
  show ?thesis
    using error_channel_takes_message_and_stack[OF s c, of "''Error''" "''boom''"
        "Some ''at foo()''" "[]"] s c p
    by simp
qed

text \<open>
  C4 as the specification words it does not hold, in two ways. The same \<^verbatim>\<open>Error\<close>
  passed to the installed \<^verbatim>\<open>console.warn\<close> is converted with \<^verbatim>\<open>String\<close>, and its
  stack is dropped. And an object that carries a message and a stack without
  being an instance of \<^verbatim>\<open>Error\<close> is converted with \<^verbatim>\<open>String\<close> on the error channel
  too.
\<close>

theorem error_on_warn_channel_counterexample:
  "map (\<lambda>r. (level r, message r, stackTrace r))
     (persisted (run [Install, Console Warn [JError ''Error'' ''boom'' (Some ''at foo()'')], Step]
        boot)) = [(WARN, ''Error: boom'', None)] \<and>
   map (\<lambda>r. (level r, message r, stackTrace r))
     (persisted (run [Install,
        Console Error [JObject [(''message'', JStr ''boom''), (''stack'', JStr ''at foo()'')]], Step]
        boot)) = [(ERROR, ''[object Object]'', None)]"
  by code_simp

text \<open>
  What the interceptors do with a primary value that is no instance of \<^verbatim>\<open>Error\<close>
  and that \<^verbatim>\<open>String\<close> converts to \<open>s\<close>: on the error channel the record's message is
  \<open>s\<close>, and on the log and warn channels it is \<open>s\<close> when the value is truthy or the
  empty string; \<open>stackTrace\<close> is absent; the other arguments, when there are any,
  are the \<open>metadata\<close>.
\<close>

lemma plain_value_is_stringified:
  "settled w \<Longrightarrow> installed_once w \<Longrightarrow> (\<forall>n m st. v \<noteq> JError n m st) \<Longrightarrow> js_String v = Some s \<Longrightarrow>
     persisted (run [Console Error (v # aux), Step] w) =
       persisted w @
         [\<lparr>timestamp = now w, level = ERROR, message = s, stackTrace = None,
           metadata = (if aux = [] then None else Some (JArray aux)),
           id_key = Some (next_key w)\<rparr>] \<and>
     (truthy v \<or> v = JStr [] \<longrightarrow>
        persisted (run [Console Warn (v # aux), Step] w) =
          persisted w @
            [\<lparr>timestamp = now w, level = WARN, message = s, stackTrace = None,
              metadata = (if aux = [] then None else Some (JArray aux)),
              id_key = Some (next_key w)\<rparr>] \<and>
        persisted (run [Console Log (v # aux), Step] w) =
          persisted w @
            [\<lparr>timestamp = now w, level = INFO, message = s, stackTrace = None,
              metadata = (if aux = [] then None else Some (JArray aux)),
              id_key = Some (next_key w)\<rparr>])"
proof -
  assume a: "settled w" "installed_once w" "\<forall>n m st. v \<noteq> JError n m st" "js_String v = Some s"
  let ?e = "\<lambda>lv. \<lparr>timestamp = now w, level = lv, message = s,
        stackTrace = None, metadata = (if aux = [] then None else Some (JArray aux))\<rparr>"
  let ?v = "exec (Console Error (v # aux)) w"
  have 1: "tasks ?v = SaveLog (?e ERROR) # []"
    "can_open ?v" "plan ?v = []" "persisted ?v = persisted w" "next_key ?v = next_key w"
    using a
    by (auto simp del: js_String.simps
        simp: exec_def console_fn_def settled_def installed_once_def saveLog_fields
          can_open_updates out_update_fields first_arg_def rest_args_Cons
        split: jsval.splits)
  have e: "persisted (run [Console Error (v # aux), Step] w) =
       persisted w @ [with_id (next_key w) (?e ERROR)]"
    using step_SaveLog_ok[OF 1(1,2,3)] 1(4,5) by (simp add: exec_Step)
  have lw: "persisted (run [Console Warn (v # aux), Step] w) =
          persisted w @ [with_id (next_key w) (?e WARN)] \<and>
        persisted (run [Console Log (v # aux), Step] w) =
          persisted w @ [with_id (next_key w) (?e INFO)]"
    if t: "truthy v \<or> v = JStr []"
  proof -
    have m: "\<not> truthy v \<longrightarrow> [] = s" using t a(4) by auto
    let ?x = "exec (Console Warn (v # aux)) w"
    have 2: "tasks ?x = SaveLog (?e WARN) # []"
      "can_open ?x" "plan ?x = []" "persisted ?x = persisted w" "next_key ?x = next_key w"
      using a m
      by (simp_all del: js_String.simps
          add: exec_def console_fn_def settled_def installed_once_def
            saveLog_fields can_open_updates out_update_fields first_arg_def rest_args_Cons)
    let ?y = "exec (Console Log (v # aux)) w"
    have 3: "tasks ?y = SaveLog (?e INFO) # []"
      "can_open ?y" "plan ?y = []" "persisted ?y = persisted w" "next_key ?y = next_key w"
      using a m
      by (simp_all del: js_String.simps
          add: exec_def console_fn_def settled_def installed_once_def
            saveLog_fields can_open_updates out_update_fields first_arg_def rest_args_Cons)
    show ?thesis
      using step_SaveLog_ok[OF 2(1,2,3)] 2(4,5) step_SaveLog_ok[OF 3(1,2,3)] 3(4,5)
      by (simp add: exec_Step)
  qed
  show ?thesis using e lw by (simp add: with_id_def)
qed

text \<open>
  C5, at the failing input. The interceptors are installed and \<^verbatim>\<open>console.log(0)\<close>
  is called: the primary value is no instance of \<^verbatim>\<open>Error\<close> and \<^verbatim>\<open>String(0)\<close> is
  \<^verbatim>\<open>"0"\<close>, but the record is stored with the empty message, because the log and
  warn interceptors test the truthiness of the value before converting it. The
  error interceptor converts without the test and stores \<^verbatim>\<open>"0"\<close>; a truthy value
  with one auxiliary value is stored as the claim says.
\<close>

theorem falsy_value_loses_message:
  "js_String (JNum 0) = Some ''0'' \<and>
   map (\<lambda>r. (level r, message r, stackTrace r, metadata r))
     (persisted (run [Install, Console Log [JNum 0], Step] boot)) = [(INFO, [], None, None)] \<and>
   map (\<lambda>r. (level r, message r, stackTrace r, metadata r))
     (persisted (run [Install, Console Error [JNum 0], Step] boot)) = [(ERROR, ''0'', None, None)] \<and>
   map (\<lambda>r. (level r, message r, stackTrace r, metadata r))
     (persisted (run [Install, Console Warn [JStr ''hello'', JObject [(''user'', JStr ''admin'')]],
        Step] boot)) =
     [(WARN, ''hello'', None, Some (JArray [JObject [(''user'', JStr ''admin'')]]))]"
  by code_simp

text \<open>
  C3, at the failing input. The interceptors are installed; the engine opens the
  database and accepts the insert of a captured \<^verbatim>\<open>console.log\<close>, then fails the
  scan of \<^verbatim>\<open>notifyListeners\<close>. The failure is reported by the connection's error
  handler with \<^verbatim>\<open>console.error\<close> and by \<^verbatim>\<open>notifyListeners\<close> with \<^verbatim>\<open>console.warn\<close>,
  both of them the installed interceptors: two new captures are started, and they
  end up in the store.
\<close>

theorem notify_failure_reenters_interceptors:
  "map (\<lambda>t. case t of SaveLog e \<Rightarrow> (level e, message e) | _ \<Rightarrow> (INFO, []))
     (tasks (run [Install, Console Log [JStr ''x''], Step, Step] flaky)) =
     [(ERROR, ''Database error:''), (WARN, ''Failed to notify listeners'')] \<and>
   map (\<lambda>r. (level r, message r))
     (persisted (run [Install, Console Log [JStr ''x''], Step, Step, Step, Step, Step, Step] flaky)) =
     [(INFO, ''x''), (ERROR, ''Database error:''), (WARN, ''Failed to notify listeners'')]"
  by code_simp

end
